theory Spec2Isabelle
  imports Complex_Main "HOL-Library.Signed_Division"
begin

section \<open>The task monitor of bili2text\<close>

text \<open>
  The development embeds \<^verbatim>\<open>monitorTask\<close> of \<^verbatim>\<open>static/js/taskMonitor.js\<close>. The same
  code is inlined as \<^verbatim>\<open>App.monitorTask\<close> in \<^verbatim>\<open>static/js/app.js\<close>; the two differ only in
  how the request is issued (\<^verbatim>\<open>checkTaskStatus\<close> of \<^verbatim>\<open>api.js\<close> against a direct
  \<^verbatim>\<open>fetch\<close>) and in one console message.

  Conventions of the embedding.
  \<^item> A JavaScript number is the \<^typ>\<open>real\<close> value of an IEEE 754 double. Every
    arithmetic operation of the source rounds its exact result to the nearest double
    (\<open>fadd\<close>, \<open>fsub\<close>, \<open>fmul\<close> below), a decimal literal denotes the double nearest
    to it, and the numbers of a response are the doubles \<^verbatim>\<open>response.json()\<close> has parsed.
    The counters \<^verbatim>\<open>checkCount\<close> and \<^verbatim>\<open>checkInterval\<close> only ever hold small
    non-negative integers and are \<^typ>\<open>nat\<close>.
  \<^item> A JavaScript string is a \<^typ>\<open>string\<close>; the Chinese literals of the source are
    given by their UTF-8 bytes.
  \<^item> The closure variables of \<^verbatim>\<open>monitorTask\<close>, the two elements of the page it touches
    and what the host still has to run (timers, animation frames) form one record, which
    every function takes and returns. Calls into the rest of the application
    (\<^verbatim>\<open>hideTaskModal\<close>, \<^verbatim>\<open>showNotification\<close>, the navigation callback, the status request,
    \<^verbatim>\<open>console.error\<close>) are appended to a log.
  \<^item> An exception is a value: the body of the \<^verbatim>\<open>try\<close> block returns \<open>Inl\<close> with the
    state reached when it was thrown, and the \<^verbatim>\<open>catch\<close> block continues from there.
\<close>

subsection \<open>String literals of the source\<close>

definition txt_processing :: string where
  \<comment> \<open>the initial stage label: 'processing'\<close>
  "txt_processing =
    [CHR 0xE6, CHR 0xAD, CHR 0xA3, CHR 0xE5, CHR 0x9C, CHR 0xA8, CHR 0xE5, CHR 0xA4, CHR 0x84,
     CHR 0xE7, CHR 0x90, CHR 0x86]"

definition txt_completed_status :: string where
  \<comment> \<open>status line of the completed branch: 'done, about to open the detail page...'\<close>
  "txt_completed_status =
    [CHR 0xE5, CHR 0xA4, CHR 0x84, CHR 0xE7, CHR 0x90, CHR 0x86, CHR 0xE5, CHR 0xAE, CHR 0x8C,
     CHR 0xE6, CHR 0x88, CHR 0x90, CHR 0xEF, CHR 0xBC, CHR 0x8C, CHR 0xE5, CHR 0x8D, CHR 0xB3,
     CHR 0xE5, CHR 0xB0, CHR 0x86, CHR 0xE8, CHR 0xB7, CHR 0xB3, CHR 0xE8, CHR 0xBD, CHR 0xAC,
     CHR 0xE5, CHR 0x88, CHR 0xB0, CHR 0xE8, CHR 0xAF, CHR 0xA6, CHR 0xE6, CHR 0x83, CHR 0x85,
     CHR 0xE9, CHR 0xA1, CHR 0xB5, CHR 0x2E, CHR 0x2E, CHR 0x2E]"

definition txt_completed_title :: string where
  \<comment> \<open>notification title: 'processing done'\<close>
  "txt_completed_title =
    [CHR 0xE5, CHR 0xA4, CHR 0x84, CHR 0xE7, CHR 0x90, CHR 0x86, CHR 0xE5, CHR 0xAE, CHR 0x8C,
     CHR 0xE6, CHR 0x88, CHR 0x90]"

definition txt_completed_message :: string where
  \<comment> \<open>notification body: 'the transcription is complete, opening the detail page'\<close>
  "txt_completed_message =
    [CHR 0xE8, CHR 0xA7, CHR 0x86, CHR 0xE9, CHR 0xA2, CHR 0x91, CHR 0xE8, CHR 0xBD, CHR 0xAC,
     CHR 0xE5, CHR 0xBD, CHR 0x95, CHR 0xE5, CHR 0xB7, CHR 0xB2, CHR 0xE5, CHR 0xAE, CHR 0x8C,
     CHR 0xE6, CHR 0x88, CHR 0x90, CHR 0xEF, CHR 0xBC, CHR 0x8C, CHR 0xE6, CHR 0xAD, CHR 0xA3,
     CHR 0xE5, CHR 0x9C, CHR 0xA8, CHR 0xE8, CHR 0xB7, CHR 0xB3, CHR 0xE8, CHR 0xBD, CHR 0xAC,
     CHR 0xE5, CHR 0x88, CHR 0xB0, CHR 0xE8, CHR 0xAF, CHR 0xA6, CHR 0xE6, CHR 0x83, CHR 0x85,
     CHR 0xE9, CHR 0xA1, CHR 0xB5]"

definition txt_failed_status :: string where
  \<comment> \<open>status line of the failed branch: 'transcription failed, retry later...'\<close>
  "txt_failed_status =
    [CHR 0xE8, CHR 0xBD, CHR 0xAC, CHR 0xE5, CHR 0xBD, CHR 0x95, CHR 0xE5, CHR 0xA4, CHR 0xB1,
     CHR 0xE8, CHR 0xB4, CHR 0xA5, CHR 0xEF, CHR 0xBC, CHR 0x8C, CHR 0xE8, CHR 0xAF, CHR 0xB7,
     CHR 0xE7, CHR 0xA8, CHR 0x8D, CHR 0xE5, CHR 0x90, CHR 0x8E, CHR 0xE9, CHR 0x87, CHR 0x8D,
     CHR 0xE8, CHR 0xAF, CHR 0x95, CHR 0x2E, CHR 0x2E, CHR 0x2E]"

definition txt_failed_title :: string where
  \<comment> \<open>notification title: 'processing failed'\<close>
  "txt_failed_title =
    [CHR 0xE5, CHR 0xA4, CHR 0x84, CHR 0xE7, CHR 0x90, CHR 0x86, CHR 0xE5, CHR 0xA4, CHR 0xB1,
     CHR 0xE8, CHR 0xB4, CHR 0xA5]"

definition txt_failed_message :: string where
  \<comment> \<open>notification body: 'the transcription failed, retry later'\<close>
  "txt_failed_message =
    [CHR 0xE8, CHR 0xA7, CHR 0x86, CHR 0xE9, CHR 0xA2, CHR 0x91, CHR 0xE8, CHR 0xBD, CHR 0xAC,
     CHR 0xE5, CHR 0xBD, CHR 0x95, CHR 0xE5, CHR 0xA4, CHR 0xB1, CHR 0xE8, CHR 0xB4, CHR 0xA5,
     CHR 0xEF, CHR 0xBC, CHR 0x8C, CHR 0xE8, CHR 0xAF, CHR 0xB7, CHR 0xE7, CHR 0xA8, CHR 0x8D,
     CHR 0xE5, CHR 0x90, CHR 0x8E, CHR 0xE9, CHR 0x87, CHR 0x8D, CHR 0xE8, CHR 0xAF, CHR 0x95]"

definition txt_api_error_title :: string where
  \<comment> \<open>notification title: 'status check failed'\<close>
  "txt_api_error_title =
    [CHR 0xE7, CHR 0x8A, CHR 0xB6, CHR 0xE6, CHR 0x80, CHR 0x81, CHR 0xE6, CHR 0xA3, CHR 0x80,
     CHR 0xE6, CHR 0x9F, CHR 0xA5, CHR 0xE5, CHR 0xA4, CHR 0xB1, CHR 0xE8, CHR 0xB4, CHR 0xA5]"

definition txt_api_error_fallback :: string where
  \<comment> \<open>generic reason: 'cannot fetch the task status'\<close>
  "txt_api_error_fallback =
    [CHR 0xE6, CHR 0x97, CHR 0xA0, CHR 0xE6, CHR 0xB3, CHR 0x95, CHR 0xE8, CHR 0x8E, CHR 0xB7,
     CHR 0xE5, CHR 0x8F, CHR 0x96, CHR 0xE4, CHR 0xBB, CHR 0xBB, CHR 0xE5, CHR 0x8A, CHR 0xA1,
     CHR 0xE7, CHR 0x8A, CHR 0xB6, CHR 0xE6, CHR 0x80, CHR 0x81]"

definition txt_connection_title :: string where
  \<comment> \<open>notification title: 'connection failed'\<close>
  "txt_connection_title =
    [CHR 0xE8, CHR 0xBF, CHR 0x9E, CHR 0xE6, CHR 0x8E, CHR 0xA5, CHR 0xE5, CHR 0xA4, CHR 0xB1,
     CHR 0xE8, CHR 0xB4, CHR 0xA5]"

definition txt_connection_message :: string where
  \<comment> \<open>notification body: 'cannot reach the server, check the network connection'\<close>
  "txt_connection_message =
    [CHR 0xE6, CHR 0x97, CHR 0xA0, CHR 0xE6, CHR 0xB3, CHR 0x95, CHR 0xE8, CHR 0xBF, CHR 0x9E,
     CHR 0xE6, CHR 0x8E, CHR 0xA5, CHR 0xE5, CHR 0x88, CHR 0xB0, CHR 0xE6, CHR 0x9C, CHR 0x8D,
     CHR 0xE5, CHR 0x8A, CHR 0xA1, CHR 0xE5, CHR 0x99, CHR 0xA8, CHR 0xEF, CHR 0xBC, CHR 0x8C,
     CHR 0xE8, CHR 0xAF, CHR 0xB7, CHR 0xE6, CHR 0xA3, CHR 0x80, CHR 0xE6, CHR 0x9F, CHR 0xA5,
     CHR 0xE7, CHR 0xBD, CHR 0x91, CHR 0xE7, CHR 0xBB, CHR 0x9C, CHR 0xE8, CHR 0xBF, CHR 0x9E,
     CHR 0xE6, CHR 0x8E, CHR 0xA5]"
subsection \<open>Data\<close>

text \<open>
  \<^verbatim>\<open>progressBar.style.width\<close>: the empty string of an element whose width was never set,
  or a percentage, written by \<^verbatim>\<open>`${x}%`\<close> and read back by \<^verbatim>\<open>parseFloat\<close>.
\<close>

datatype css_width = Unset | Percent real

text \<open>
  \<^verbatim>\<open>textContent\<close> of the status line: a literal, or the template
  \<^verbatim>\<open>`${stageName}, elapsed: ${minutes}m${seconds}s`\<close> of the processing branch, kept as its
  ingredients (\<open>None\<close> for the \<^verbatim>\<open>NaN\<close> of a report without \<^verbatim>\<open>elapsed_time\<close>).
\<close>

datatype status_text = Literal string | StageElapsed string "(int \<times> int) option"

text \<open>The functions the source hands to \<^verbatim>\<open>setTimeout\<close>.\<close>

datatype callback =
    CheckStatus
  | CloseCompleted
  | NavigateDetail
  | CloseFailed
  | CloseApiError "string option"

datatype call =
    StatusRequest string
  | ConsoleError
  | HideTaskModal
  | ShowNotification string string string
  | Navigate string

datatype error = TypeError

text \<open>The JSON body of \<^verbatim>\<open>GET /api/task/{taskId}\<close>; an absent field is \<open>None\<close>.\<close>

record status_data =
  success :: bool
  status :: "string option"
  progress :: "real option"
  stage_name :: "string option"
  elapsed_time :: "real option"
  error :: "string option"

text \<open>One status request either throws (\<^verbatim>\<open>fetch\<close> or \<^verbatim>\<open>response.json()\<close>) or yields a body.\<close>

datatype poll = TransportFailure | Response status_data

record world =
  taskId :: string
  videoId :: string
  lastProgress :: real
  animationFrame :: "nat option"
  currentStageName :: string
  checkInterval :: nat
  checkCount :: nat
  task_progress :: "css_width option"
  task_status :: "status_text option"
  frames :: "(nat \<times> real) list"
  next_frame :: nat
  pending :: "(nat \<times> callback) list"
  calls :: "call list"

text \<open>
  \<open>task_progress\<close> and \<open>task_status\<close> are the elements \<^verbatim>\<open>#task-progress\<close> and
  \<^verbatim>\<open>#task-status\<close>, \<open>None\<close> when \<^verbatim>\<open>getElementById\<close> returns \<^verbatim>\<open>null\<close>. \<open>frames\<close> are the
  animation frames requested and not yet run or cancelled, each with its handle and the
  \<^verbatim>\<open>targetProgress\<close> its callback captured. \<open>pending\<close> are the timers not yet fired, each
  with its delay in milliseconds.
\<close>

subsection \<open>JavaScript numbers\<close>

text \<open>
  Rounding to the nearest double, ties to the even significand: a double is
  \<open>m * 2 ^ e\<close> with \<open>\<bar>m\<bar> < 2 ^ 53\<close> and \<open>e \<ge> - 1074\<close>, so a number \<open>x\<close> is rounded to a
  multiple of \<open>2 ^ expo x\<close>. The exponent has no upper limit here: a product that
  overflows to \<^verbatim>\<open>Infinity\<close> in the browser is a number above 100 here, and the only
  product that can be that large is clamped to 100 right away. The source never
  divides, so \<^verbatim>\<open>NaN\<close> and the sign of zero play no part.
\<close>

definition round_even :: "real \<Rightarrow> int" where
  "round_even y =
     (let f = \<lfloor>y\<rfloor>; r = y - of_int f
      in if r < 1 / 2 then f else if r > 1 / 2 then f + 1 else if even f then f else f + 1)"

definition expo :: "real \<Rightarrow> int" where
  "expo x = max (\<lfloor>log 2 \<bar>x\<bar>\<rfloor> - 52) (- 1074)"

definition rnd :: "real \<Rightarrow> real" where
  "rnd x = (if x = 0 then 0 else of_int (round_even (x / 2 powi expo x)) * 2 powi expo x)"

definition fadd :: "real \<Rightarrow> real \<Rightarrow> real" where
  "fadd x y = rnd (x + y)"

definition fsub :: "real \<Rightarrow> real \<Rightarrow> real" where
  "fsub x y = rnd (x - y)"

definition fmul :: "real \<Rightarrow> real \<Rightarrow> real" where
  "fmul x y = rnd (x * y)"

subsection \<open>Host primitives\<close>

definition record_call :: "call \<Rightarrow> world \<Rightarrow> world" where
  "record_call c w = w\<lparr>calls := calls w @ [c]\<rparr>"

definition setTimeout :: "callback \<Rightarrow> nat \<Rightarrow> world \<Rightarrow> world" where
  "setTimeout cb delay w = w\<lparr>pending := pending w @ [(delay, cb)]\<rparr>"

text \<open>
  \<^verbatim>\<open>animationFrame = requestAnimationFrame(() => animateProgress(targetProgress))\<close>:
  the handle returned is stored in the closure variable.
\<close>

definition requestAnimationFrame :: "real \<Rightarrow> world \<Rightarrow> world" where
  "requestAnimationFrame targetProgress w =
     w\<lparr>frames := frames w @ [(next_frame w, targetProgress)],
       animationFrame := Some (next_frame w),
       next_frame := next_frame w + 1\<rparr>"

definition cancelAnimationFrame :: "nat \<Rightarrow> world \<Rightarrow> world" where
  "cancelAnimationFrame h w = w\<lparr>frames := filter (\<lambda>f. fst f \<noteq> h) (frames w)\<rparr>"

definition setTextContent :: "status_text \<Rightarrow> world \<Rightarrow> (error \<times> world) + world" where
  \<comment> \<open>\<^verbatim>\<open>document.getElementById('task-status').textContent = t\<close>\<close>
  "setTextContent t w =
     (case task_status w of
        None \<Rightarrow> Inl (TypeError, w)
      | Some _ \<Rightarrow> Inr (w\<lparr>task_status := Some t\<rparr>))"

subsection \<open>The progress animation (taskMonitor.js, lines 22 to 45)\<close>

definition currentWidth :: "css_width \<Rightarrow> real" where
  \<comment> \<open>\<^verbatim>\<open>parseFloat(progressBar.style.width || '5%')\<close>\<close>
  "currentWidth cw = (case cw of Unset \<Rightarrow> 5 | Percent x \<Rightarrow> x)"

definition targetWidth :: "real \<Rightarrow> real" where
  \<comment> \<open>\<^verbatim>\<open>Math.max(5, Math.min(100, targetProgress * 100))\<close>\<close>
  "targetWidth targetProgress = max 5 (min 100 (fmul targetProgress 100))"

definition animateProgress :: "real \<Rightarrow> world \<Rightarrow> world" where
  \<comment> \<open>\<open>0.5\<close> is a double; \<open>0.1\<close> is not, and stands for the double nearest to it\<close>
  "animateProgress targetProgress w =
     (case task_progress w of
        None \<Rightarrow> w
      | Some cw \<Rightarrow>
          (let cur = currentWidth cw;
               tgt = targetWidth targetProgress
           in if \<bar>fsub tgt cur\<bar> < 0.5
              then w\<lparr>task_progress := Some (Percent tgt)\<rparr>
              else
                (let newWidth = fadd cur (fmul (fsub tgt cur) (rnd 0.1));
                     w' = w\<lparr>task_progress := Some (Percent newWidth)\<rparr>
                 in if \<bar>fsub newWidth tgt\<bar> > 0.5
                    then requestAnimationFrame targetProgress w'
                    else w')))"

subsection \<open>The poll handler (taskMonitor.js, lines 52 to 140)\<close>

definition reportedProgress :: "status_data \<Rightarrow> real" where
  \<comment> \<open>\<^verbatim>\<open>data.progress || 0\<close>\<close>
  "reportedProgress d = (case progress d of None \<Rightarrow> 0 | Some p \<Rightarrow> p)"

definition reportedStage :: "status_data \<Rightarrow> world \<Rightarrow> string" where
  \<comment> \<open>\<^verbatim>\<open>data.stage_name || currentStageName\<close>: the empty string is falsy\<close>
  "reportedStage d w =
     (case stage_name d of
        None \<Rightarrow> currentStageName w
      | Some s \<Rightarrow> if s = [] then currentStageName w else s)"

definition timeStr :: "status_data \<Rightarrow> (int \<times> int) option" where
  \<comment> \<open>minutes and seconds of \<^verbatim>\<open>Math.floor(data.elapsed_time)\<close>; \<^verbatim>\<open>%\<close> truncates towards zero\<close>
  "timeStr d =
     (case elapsed_time d of
        None \<Rightarrow> None
      | Some e \<Rightarrow> (let elapsedTime = \<lfloor>e\<rfloor> in Some (elapsedTime div 60, elapsedTime smod 60)))"

definition updateProgressBar :: "real \<Rightarrow> world \<Rightarrow> world" where
  \<comment> \<open>lines 66 to 74\<close>
  "updateProgressBar p w =
     (if p > lastProgress w \<or> p \<ge> rnd 0.99
      then
        (let w1 = (case animationFrame w of
                     None \<Rightarrow> w
                   | Some h \<Rightarrow> if h \<noteq> 0 then cancelAnimationFrame h w else w)
         in (animateProgress p w1)\<lparr>lastProgress := p\<rparr>)
      else w)"

definition adjustInterval :: "world \<Rightarrow> world" where
  \<comment> \<open>lines 87 to 93\<close>
  "adjustInterval w =
     (let w1 = w\<lparr>checkCount := checkCount w + 1\<rparr>;
          w2 = (if checkCount w1 > 10 \<and> checkInterval w1 < 3000
                then w1\<lparr>checkInterval := 2000\<rparr> else w1);
          w3 = (if checkCount w2 > 30 \<and> checkInterval w2 < 5000
                then w2\<lparr>checkInterval := 3000\<rparr> else w2)
      in w3)"

definition onProcessing :: "status_data \<Rightarrow> world \<Rightarrow> (error \<times> world) + world" where
  "onProcessing d w =
     (let stageName = reportedStage d w;
          w1 = w\<lparr>currentStageName := stageName\<rparr>;
          w2 = updateProgressBar (reportedProgress d) w1
      in case setTextContent (StageElapsed stageName (timeStr d)) w2 of
           Inl e \<Rightarrow> Inl e
         | Inr w3 \<Rightarrow>
             (let w4 = adjustInterval w3
              in Inr (setTimeout CheckStatus (checkInterval w4) w4)))"

definition onCompleted :: "world \<Rightarrow> (error \<times> world) + world" where
  "onCompleted w =
     (case setTextContent (Literal txt_completed_status) (animateProgress 1.0 w) of
        Inl e \<Rightarrow> Inl e
      | Inr w1 \<Rightarrow> Inr (setTimeout CloseCompleted 1500 w1))"

definition onFailed :: "world \<Rightarrow> (error \<times> world) + world" where
  "onFailed w =
     (case setTextContent (Literal txt_failed_status) w of
        Inl e \<Rightarrow> Inl e
      | Inr w1 \<Rightarrow> Inr (setTimeout CloseFailed 1500 w1))"

definition onResponse :: "status_data \<Rightarrow> world \<Rightarrow> (error \<times> world) + world" where
  \<comment> \<open>the body of the \<^verbatim>\<open>try\<close> block after the \<^verbatim>\<open>await\<close>, lines 56 to 128\<close>
  "onResponse d w =
     (if success d then
        (if status d = Some ''processing'' then onProcessing d w
         else if status d = Some ''completed'' then onCompleted w
         else if status d = Some ''failed'' then onFailed w
         else Inr w)
      else Inr (setTimeout (CloseApiError (error d)) 1000 w))"

definition onError :: "world \<Rightarrow> world" where
  \<comment> \<open>the \<^verbatim>\<open>catch\<close> block, lines 129 to 139\<close>
  "onError w =
     (let w1 = record_call ConsoleError w
      in if checkCount w1 < 5
         then (setTimeout CheckStatus 3000 w1)\<lparr>checkCount := checkCount w1 + 1\<rparr>
         else record_call (ShowNotification txt_connection_title txt_connection_message ''error'')
                (record_call HideTaskModal w1))"

definition checkStatus :: "poll \<Rightarrow> world \<Rightarrow> world" where
  \<comment> \<open>one call of \<^verbatim>\<open>checkStatus\<close> whose request ends as \<open>r\<close>; \<^verbatim>\<open>checkTaskStatus\<close> logs a
      failure and throws it again\<close>
  "checkStatus r w =
     (let w0 = record_call (StatusRequest (taskId w)) w
      in case r of
           TransportFailure \<Rightarrow> onError (record_call ConsoleError w0)
         | Response d \<Rightarrow>
             (case onResponse d w0 of
                Inl (e, w1) \<Rightarrow> onError w1
              | Inr w1 \<Rightarrow> w1))"

definition errorReason :: "string option \<Rightarrow> string" where
  \<comment> \<open>\<^verbatim>\<open>data.error || fallback\<close>: the empty string is falsy\<close>
  "errorReason e =
     (case e of
        None \<Rightarrow> txt_api_error_fallback
      | Some s \<Rightarrow> if s = [] then txt_api_error_fallback else s)"

definition fire :: "callback \<Rightarrow> world \<Rightarrow> world" where
  \<comment> \<open>the bodies of the arrow functions given to \<^verbatim>\<open>setTimeout\<close>\<close>
  "fire cb w =
     (case cb of
        CheckStatus \<Rightarrow> w
      | CloseCompleted \<Rightarrow>
          setTimeout NavigateDetail 1000
            (record_call (ShowNotification txt_completed_title txt_completed_message ''success'')
               (record_call HideTaskModal w))
      | NavigateDetail \<Rightarrow> record_call (Navigate (''transcription/'' @ videoId w)) w
      | CloseFailed \<Rightarrow>
          record_call (ShowNotification txt_failed_title txt_failed_message ''error'')
            (record_call HideTaskModal w)
      | CloseApiError e \<Rightarrow>
          record_call (ShowNotification txt_api_error_title (errorReason e) ''error'')
            (record_call HideTaskModal w))"

definition monitorTask :: "string \<Rightarrow> string \<Rightarrow> css_width option \<Rightarrow> status_text option \<Rightarrow> world" where
  \<comment> \<open>the state right after \<^verbatim>\<open>monitorTask(taskId, videoId, navigateCallback)\<close> on a page with
      the given elements: the first \<^verbatim>\<open>checkStatus()\<close> is under way, entered in \<open>pending\<close>
      with delay 0\<close>
  "monitorTask tid vid bar st =
     \<lparr>taskId = tid, videoId = vid, lastProgress = 0, animationFrame = None,
      currentStageName = txt_processing, checkInterval = 1000, checkCount = 0,
      task_progress = bar, task_status = st, frames = [], next_frame = 1,
      pending = [(0, CheckStatus)], calls = []\<rparr>"

subsection \<open>The event loop\<close>

text \<open>
  What the host can do next: complete the status request of an armed \<^verbatim>\<open>checkStatus\<close>
  with some result, fire another pending timer, or run a requested animation frame.
  An event that is not enabled leaves the state as it is.
\<close>

datatype event = Poll poll | Fire nat | Frame nat

fun take_check :: "(nat \<times> callback) list \<Rightarrow> (nat \<times> callback) list option" where
  "take_check [] = None"
| "take_check (t # ts) =
     (if snd t = CheckStatus then Some ts else map_option ((#) t) (take_check ts))"

definition step :: "event \<Rightarrow> world \<Rightarrow> world" where
  "step e w =
     (case e of
        Poll r \<Rightarrow>
          (case take_check (pending w) of
             None \<Rightarrow> w
           | Some ts \<Rightarrow> checkStatus r (w\<lparr>pending := ts\<rparr>))
      | Fire i \<Rightarrow>
          (if i < length (pending w) \<and> snd (pending w ! i) \<noteq> CheckStatus
           then fire (snd (pending w ! i))
                  (w\<lparr>pending := take i (pending w) @ drop (Suc i) (pending w)\<rparr>)
           else w)
      | Frame h \<Rightarrow>
          (case map_of (frames w) h of
             None \<Rightarrow> w
           | Some targetProgress \<Rightarrow>
               animateProgress targetProgress
                 (w\<lparr>frames := filter (\<lambda>f. fst f \<noteq> h) (frames w)\<rparr>)))"

definition run :: "event list \<Rightarrow> world \<Rightarrow> world" where
  "run es w = fold step es w"

subsection \<open>Observations on a state\<close>

fun is_close :: "callback \<Rightarrow> bool" where
  "is_close CloseCompleted = True"
| "is_close CloseFailed = True"
| "is_close (CloseApiError e) = True"
| "is_close CheckStatus = False"
| "is_close NavigateDetail = False"

fun is_notification :: "call \<Rightarrow> bool" where
  "is_notification (ShowNotification title message kind) = True"
| "is_notification (StatusRequest tid) = False"
| "is_notification ConsoleError = False"
| "is_notification HideTaskModal = False"
| "is_notification (Navigate path) = False"

fun is_request :: "call \<Rightarrow> bool" where
  "is_request (StatusRequest tid) = True"
| "is_request (ShowNotification title message kind) = False"
| "is_request ConsoleError = False"
| "is_request HideTaskModal = False"
| "is_request (Navigate path) = False"

fun is_navigate :: "call \<Rightarrow> bool" where
  "is_navigate (Navigate path) = True"
| "is_navigate (StatusRequest tid) = False"
| "is_navigate ConsoleError = False"
| "is_navigate HideTaskModal = False"
| "is_navigate (ShowNotification title message kind) = False"

definition armed :: "world \<Rightarrow> nat" where
  \<comment> \<open>the number of \<^verbatim>\<open>checkStatus\<close> calls still to come\<close>
  "armed w = length (filter (\<lambda>t. snd t = CheckStatus) (pending w))"

definition closing :: "world \<Rightarrow> nat" where
  \<comment> \<open>the number of delayed outcome reports still to come\<close>
  "closing w = length (filter (\<lambda>t. is_close (snd t)) (pending w))"

definition notified :: "world \<Rightarrow> nat" where
  \<comment> \<open>the number of outcomes shown to the user so far\<close>
  "notified w = length (filter is_notification (calls w))"

definition requests :: "world \<Rightarrow> nat" where
  \<comment> \<open>the number of status requests issued so far\<close>
  "requests w = length (filter is_request (calls w))"

definition navigating :: "world \<Rightarrow> nat" where
  \<comment> \<open>the number of delayed calls of the navigation callback still to come\<close>
  "navigating w = length (filter (\<lambda>t. snd t = NavigateDetail) (pending w))"

definition navigated :: "world \<Rightarrow> nat" where
  \<comment> \<open>the number of calls of the navigation callback so far\<close>
  "navigated w = length (filter is_navigate (calls w))"

definition terminal :: "poll \<Rightarrow> world \<Rightarrow> bool" where
  \<comment> \<open>the poll results that end the run with an outcome: a completed or failed report,
      a response with \<^verbatim>\<open>success: false\<close>, and a transport failure, or a report whose
      handling throws because the page has no status line, once the retries are used up\<close>
  "terminal r w =
     (case r of
        TransportFailure \<Rightarrow> 5 \<le> checkCount w
      | Response d \<Rightarrow>
          if \<not> success d then True
          else if status d = Some ''completed'' \<or> status d = Some ''failed''
          then (case task_status w of None \<Rightarrow> 5 \<le> checkCount w | Some t \<Rightarrow> True)
          else if status d = Some ''processing''
          then (case task_status w of None \<Rightarrow> 5 \<le> checkCount w | Some t \<Rightarrow> False)
          else False)"

definition width_ok :: "world \<Rightarrow> bool" where
  \<comment> \<open>the width of the bar, when it has one, is between 5 and 100 percent\<close>
  "width_ok w =
     (case task_progress w of
        None \<Rightarrow> True
      | Some cw \<Rightarrow> 5 \<le> currentWidth cw \<and> currentWidth cw \<le> 100)"

definition spec_interval :: "nat \<Rightarrow> nat" where
  \<comment> \<open>the schedule table of the specification, by the number of polls counted\<close>
  "spec_interval n = (if n \<le> 10 then 1000 else if n \<le> 30 then 2000 else 3000)"

subsection \<open>Concrete inputs\<close>

definition txt_downloading :: string where
  \<comment> \<open>the status line \<^verbatim>\<open>showTaskModal\<close> is called with in main.js: 'downloading the video, please wait...'\<close>
  "txt_downloading =
    [CHR 0xE6, CHR 0xAD, CHR 0xA3, CHR 0xE5, CHR 0x9C, CHR 0xA8, CHR 0xE4, CHR 0xB8, CHR 0x8B,
     CHR 0xE8, CHR 0xBD, CHR 0xBD, CHR 0xE8, CHR 0xA7, CHR 0x86, CHR 0xE9, CHR 0xA2, CHR 0x91,
     CHR 0xEF, CHR 0xBC, CHR 0x8C, CHR 0xE8, CHR 0xAF, CHR 0xB7, CHR 0xE7, CHR 0xA8, CHR 0x8D,
     CHR 0xE5, CHR 0x80, CHR 0x99, CHR 0x2E, CHR 0x2E, CHR 0x2E]"

definition fresh_monitor :: world where
  \<comment> \<open>a monitor started right after \<^verbatim>\<open>showTaskModal\<close>, which sets the bar to \<^verbatim>\<open>5%\<close>\<close>
  "fresh_monitor =
     monitorTask ''task-1'' ''BV1'' (Some (Percent 5)) (Some (Literal txt_downloading))"

definition processing_report :: "real \<Rightarrow> status_data" where
  "processing_report p =
     \<lparr>success = True, status = Some ''processing'', progress = Some p, stage_name = None,
      elapsed_time = Some 0, error = None\<rparr>"

definition completed_report :: status_data where
  "completed_report =
     \<lparr>success = True, status = Some ''completed'', progress = None, stage_name = None,
      elapsed_time = None, error = None\<rparr>"

definition queued_report :: status_data where
  \<comment> \<open>a status the handler has no branch for\<close>
  "queued_report =
     \<lparr>success = True, status = Some ''queued'', progress = None, stage_name = None,
      elapsed_time = None, error = None\<rparr>"

definition rejected_report :: status_data where
  \<comment> \<open>\<^verbatim>\<open>{"success": false, "error": ""}\<close>\<close>
  "rejected_report =
     \<lparr>success = False, status = None, progress = None, stage_name = None,
      elapsed_time = None, error = Some []\<rparr>"

section \<open>Properties\<close>

subsection \<open>Rounding to doubles\<close>

lemma round_even_near:
  assumes "\<bar>y - of_int m\<bar> < 1 / 2"
  shows "round_even y = m"
proof (cases "of_int m \<le> y")
  case True
  then have "\<lfloor>y\<rfloor> = m" using assms by (simp add: floor_eq_iff abs_if split: if_splits)
  then show ?thesis using assms True by (simp add: round_even_def Let_def)
next
  case False
  then have "\<lfloor>y\<rfloor> = m - 1" using assms by (simp add: floor_eq_iff abs_if split: if_splits)
  then show ?thesis using assms False by (simp add: round_even_def Let_def)
qed

lemma round_even_of_int: "round_even (of_int n) = n"
  by (rule round_even_near) simp

lemma round_even_unfold:
  obtains f where "of_int f \<le> y" "y < of_int f + 1"
    "round_even y = (if y - of_int f < 1 / 2 then f else if y - of_int f > 1 / 2 then f + 1
                     else if even f then f else f + 1)"
proof -
  have "of_int \<lfloor>y\<rfloor> \<le> y" "y < of_int \<lfloor>y\<rfloor> + 1" by linarith+
  moreover have "round_even y = (if y - of_int \<lfloor>y\<rfloor> < 1 / 2 then \<lfloor>y\<rfloor>
      else if y - of_int \<lfloor>y\<rfloor> > 1 / 2 then \<lfloor>y\<rfloor> + 1
      else if even \<lfloor>y\<rfloor> then \<lfloor>y\<rfloor> else \<lfloor>y\<rfloor> + 1)"
    by (simp add: round_even_def Let_def)
  ultimately show ?thesis using that by blast
qed

lemma round_even_error: "\<bar>of_int (round_even y) - y\<bar> \<le> 1 / 2"
proof -
  obtain f where f: "of_int f \<le> y" "y < of_int f + 1"
    "round_even y = (if y - of_int f < 1 / 2 then f else if y - of_int f > 1 / 2 then f + 1
                     else if even f then f else f + 1)"
    by (rule round_even_unfold)
  have "\<bar>real_of_int f - y\<bar> \<le> 1 / 2" if "y - of_int f \<le> 1 / 2"
    using that f(1) by linarith
  moreover have "\<bar>real_of_int (f + 1) - y\<bar> \<le> 1 / 2" if "y - of_int f \<ge> 1 / 2"
    using that f(2) by (simp add: abs_if)
  ultimately show ?thesis
    unfolding f(3) by (smt (verit))
qed

lemma round_even_mono:
  assumes "x \<le> y"
  shows "round_even x \<le> round_even y"
proof (rule ccontr)
  assume "\<not> round_even x \<le> round_even y"
  then have gt: "round_even y + 1 \<le> round_even x" by simp
  then have "of_int (round_even y) + (1::real) \<le> of_int (round_even x)"
    by (metis of_int_1 of_int_add of_int_le_iff)
  then have "y \<le> x"
    using round_even_error[of x] round_even_error[of y] by (simp add: abs_if split: if_splits)
  then have "x = y" using assms by simp
  then show False using gt by simp
qed

lemma round_even_tie:
  assumes "y = of_int f + 1 / 2"
  shows "round_even y = (if even f then f else f + 1)"
proof -
  have "\<lfloor>y\<rfloor> = f" using assms by (simp add: floor_eq_iff)
  then show ?thesis using assms by (simp add: round_even_def Let_def)
qed

lemma round_even_minus: "round_even (- y) = - round_even y"
proof -
  define f where "f = \<lfloor>y\<rfloor>"
  have fr: "of_int f \<le> y" "y < of_int f + 1" unfolding f_def by linarith+
  consider (lo) "y - of_int f < 1 / 2" | (hi) "y - of_int f > 1 / 2" | (tie) "y = of_int f + 1 / 2"
    by linarith
  then show ?thesis
  proof cases
    case lo
    have "\<bar>y - of_int f\<bar> < 1 / 2" using lo fr by linarith
    then have "round_even y = f" by (rule round_even_near)
    moreover have "\<bar>- y - of_int (- f)\<bar> < 1 / 2" using lo fr by (simp add: abs_if) 
    then have "round_even (- y) = - f" by (rule round_even_near)
    ultimately show ?thesis by simp
  next
    case hi
    have "\<bar>y - of_int (f + 1)\<bar> < 1 / 2" using hi fr by (simp add: abs_if)
    then have "round_even y = f + 1" by (rule round_even_near)
    moreover have "\<bar>- y - of_int (- (f + 1))\<bar> < 1 / 2" using hi fr by (simp add: abs_if)
    then have "round_even (- y) = - (f + 1)" by (rule round_even_near)
    ultimately show ?thesis by simp
  next
    case tie
    have a: "round_even y = (if even f then f else f + 1)"
      using tie by (rule round_even_tie)
    have "- y = of_int (- f - 1) + 1 / 2" using tie by simp
    then have "round_even (- y) = (if even (- f - 1) then - f - 1 else (- f - 1) + 1)"
      by (rule round_even_tie)
    then show ?thesis using a by auto
  qed
qed


lemma round_even_le:
  assumes "z \<le> of_int n"
  shows "round_even z \<le> n"
  using round_even_mono[OF assms] by (simp add: round_even_of_int)

lemma round_even_ge:
  assumes "of_int n \<le> z"
  shows "n \<le> round_even z"
  using round_even_mono[OF assms] by (simp add: round_even_of_int)

lemma expo_minus: "expo (- x) = expo x"
  by (simp add: expo_def)

lemma rnd_minus: "rnd (- x) = - rnd x"
  by (simp add: rnd_def expo_minus round_even_minus)

lemma rnd_nonneg:
  assumes "0 \<le> x"
  shows "0 \<le> rnd x"
proof -
  have "0 \<le> x / 2 powi expo x" using assms by simp
  then have "0 \<le> round_even (x / 2 powi expo x)"
    using round_even_ge[of 0] by simp
  then show ?thesis by (simp add: rnd_def)
qed

lemma powi_le_floor_log:
  assumes "0 < x"
  shows "2 powi \<lfloor>log 2 x\<rfloor> \<le> x" and "x < 2 powi (\<lfloor>log 2 x\<rfloor> + 1)"
proof -
  have "2 powr (of_int \<lfloor>log 2 x\<rfloor>) \<le> 2 powr (log 2 x)"
    by (simp add: powr_le_cancel_iff)
  then show "2 powi \<lfloor>log 2 x\<rfloor> \<le> x"
    using assms by (simp add: powr_real_of_int')
  have "2 powr (log 2 x) < 2 powr (of_int (\<lfloor>log 2 x\<rfloor> + 1))"
    by (simp add: powr_less_cancel_iff)
  moreover have "(2::real) powr (of_int (\<lfloor>log 2 x\<rfloor> + 1)) = 2 powi (\<lfloor>log 2 x\<rfloor> + 1)"
    by (rule powr_real_of_int') simp_all
  ultimately show "x < 2 powi (\<lfloor>log 2 x\<rfloor> + 1)"
    using assms by simp
qed

lemma expo_mono:
  assumes "0 < x" "x \<le> y"
  shows "expo x \<le> expo y"
proof -
  have "log 2 x \<le> log 2 y" using assms by simp
  then have "\<lfloor>log 2 x\<rfloor> \<le> \<lfloor>log 2 y\<rfloor>" by (rule floor_mono)
  then show ?thesis using assms by (simp add: expo_def)
qed

lemma rnd_upper:
  assumes "0 < x"
  shows "rnd x \<le> 2 powi (expo x + 53)"
proof -
  have "\<lfloor>log 2 x\<rfloor> + 1 \<le> expo x + 53" using assms by (simp add: expo_def)
  then have "2 powi (\<lfloor>log 2 x\<rfloor> + 1) \<le> (2::real) powi (expo x + 53)"
    by (intro power_int_increasing) simp_all
  then have "x \<le> 2 powi (expo x + 53)"
    using powi_le_floor_log(2)[OF assms] by linarith
  also have "\<dots> = 2 powi expo x * 2 ^ 53"
    by (simp add: power_int_add)
  finally have "x / 2 powi expo x \<le> of_int (2 ^ 53)"
    by (simp add: divide_le_eq mult.commute)
  then have "round_even (x / 2 powi expo x) \<le> 2 ^ 53"
    by (rule round_even_le)
  then have "of_int (round_even (x / 2 powi expo x)) \<le> (2 ^ 53 :: real)"
    by (metis of_int_le_iff of_int_numeral of_int_power)
  then have "of_int (round_even (x / 2 powi expo x)) * 2 powi expo x \<le> 2 ^ 53 * (2::real) powi expo x"
    by (intro mult_right_mono) simp_all
  then show ?thesis
    using assms by (simp add: rnd_def power_int_add mult.commute)
qed

lemma rnd_lower:
  assumes "0 < y" "- 1074 < expo y"
  shows "2 powi (expo y + 52) \<le> rnd y"
proof -
  have e: "expo y + 52 = \<lfloor>log 2 y\<rfloor>" using assms by (simp add: expo_def)
  have "2 powi (expo y + 52) \<le> y"
    using powi_le_floor_log(1)[OF assms(1)] e by simp
  moreover have "2 powi (expo y + 52) = 2 powi expo y * (2 ^ 52 :: real)"
    by (simp add: power_int_add)
  ultimately have "of_int (2 ^ 52) \<le> y / 2 powi expo y"
    by (simp add: le_divide_eq mult.commute)
  then have "2 ^ 52 \<le> round_even (y / 2 powi expo y)"
    by (rule round_even_ge)
  then have "(2 ^ 52 :: real) \<le> of_int (round_even (y / 2 powi expo y))"
    by (metis of_int_le_iff of_int_numeral of_int_power)
  then have "2 ^ 52 * 2 powi expo y \<le> of_int (round_even (y / 2 powi expo y)) * (2::real) powi expo y"
    by (intro mult_right_mono) simp_all
  then show ?thesis
    using assms by (simp add: rnd_def power_int_add mult.commute)
qed

lemma rnd_mono_pos:
  assumes "0 < x" "x \<le> y"
  shows "rnd x \<le> rnd y"
proof (cases "expo x = expo y")
  case True
  have "x / 2 powi expo y \<le> y / 2 powi expo y"
    using assms by (simp add: divide_right_mono)
  then have "round_even (x / 2 powi expo y) \<le> round_even (y / 2 powi expo y)"
    by (rule round_even_mono)
  then have "of_int (round_even (x / 2 powi expo y)) * 2 powi expo y
      \<le> of_int (round_even (y / 2 powi expo y)) * (2::real) powi expo y"
    by (intro mult_right_mono) simp_all
  then show ?thesis using assms True by (simp add: rnd_def)
next
  case False
  then have lt: "expo x + 1 \<le> expo y" using expo_mono[OF assms] by simp
  have "- 1074 \<le> expo x" by (simp add: expo_def)
  then have "- 1074 < expo y" using lt by simp
  have "rnd x \<le> 2 powi (expo x + 53)" using assms(1) by (rule rnd_upper)
  also have "\<dots> \<le> 2 powi (expo y + 52)"
    using lt by (intro power_int_increasing) simp_all
  also have "\<dots> \<le> rnd y"
    using assms \<open>- 1074 < expo y\<close> by (intro rnd_lower) simp_all
  finally show ?thesis .
qed

lemma rnd_0: "rnd 0 = 0"
  by (simp add: rnd_def)

lemma rnd_mono:
  assumes "x \<le> y"
  shows "rnd x \<le> rnd y"
proof -
  consider (pos) "0 < x" | (neg) "y < 0" | (mid) "x \<le> 0" "0 \<le> y" by linarith
  then show ?thesis
  proof cases
    case pos
    then show ?thesis using assms by (rule rnd_mono_pos)
  next
    case neg
    then have "rnd (- y) \<le> rnd (- x)" using assms by (intro rnd_mono_pos) simp_all
    then show ?thesis by (simp add: rnd_minus)
  next
    case mid
    have "0 \<le> rnd (- x)" using mid(1) by (intro rnd_nonneg) simp
    then have "rnd x \<le> 0" by (simp add: rnd_minus)
    also have "0 \<le> rnd y" using mid(2) by (rule rnd_nonneg)
    finally show ?thesis .
  qed
qed

text \<open>
  Evaluation on a concrete number: \<open>rnd x\<close> is \<open>m / 2 ^ n\<close> when \<open>2 ^ n\<close> scales \<open>x\<close>
  into the range of a 53-bit significand and \<open>m\<close> is the integer nearest to the scaled
  number.
\<close>

lemma powi_neg: "(2::real) powi (- int n) = 1 / 2 ^ n"
  by (simp add: power_int_minus inverse_eq_divide)

lemma rnd_eval:
  assumes "2 ^ 52 \<le> \<bar>x\<bar> * 2 ^ n" and "\<bar>x\<bar> * 2 ^ n < 2 ^ 53" and "n \<le> 1074"
    and "\<bar>x * 2 ^ n - of_int m\<bar> < 1 / 2"
  shows "rnd x = of_int m / 2 ^ n"
proof -
  have x0: "x \<noteq> 0" using assms(1) by auto
  then have pos: "0 < \<bar>x\<bar>" by simp
  have p: "(2::real) powi (52 - int n) = 2 ^ 52 / 2 ^ n"
    by (simp add: power_int_diff)
  have p1: "(2::real) powi (52 - int n + 1) = 2 ^ 53 / 2 ^ n"
    by (simp add: power_int_diff flip: add_diff_eq diff_add_eq)
  have "2 powi (52 - int n) \<le> \<bar>x\<bar>" "\<bar>x\<bar> < 2 powi (52 - int n + 1)"
    using assms(1,2) unfolding p p1 by (simp_all add: divide_le_eq less_divide_eq)
  then have "of_int (52 - int n) \<le> log 2 \<bar>x\<bar>" "log 2 \<bar>x\<bar> < of_int (52 - int n + 1)"
    using pos by (simp_all add: le_log_iff log_less_iff powr_real_of_int' del: of_int_add of_int_diff)
  then have "\<lfloor>log 2 \<bar>x\<bar>\<rfloor> = 52 - int n"
    by (simp add: floor_eq_iff)
  then have e: "expo x = - int n" using assms(3) by (simp add: expo_def)
  have "x / 2 powi expo x = x * 2 ^ n"
    by (simp add: e powi_neg)
  then have "round_even (x / 2 powi expo x) = m"
    using assms(4) round_even_near by simp
  then show ?thesis using x0 by (simp add: rnd_def e powi_neg)
qed

lemma rnd_error_small:
  assumes "\<bar>x\<bar> \<le> 128"
  shows "\<bar>rnd x - x\<bar> \<le> 1 / 2 ^ 46"
proof (cases "x = 0")
  case True
  then show ?thesis by (simp add: rnd_def)
next
  case False
  then have pos: "0 < \<bar>x\<bar>" by simp
  have "log 2 \<bar>x\<bar> \<le> log 2 128" using pos assms by simp
  also have "log 2 128 = 7"
    using log_pow_cancel[of 2 7] by simp
  finally have "\<lfloor>log 2 \<bar>x\<bar>\<rfloor> \<le> 7" by (simp add: floor_le_iff)
  then have "expo x \<le> - 45" by (simp add: expo_def)
  then have "(2::real) powi expo x \<le> 2 powi (- 45)"
    by (intro power_int_increasing) simp_all
  moreover have "(2::real) powi (- 45) = 1 / 2 ^ 45"
    using powi_neg[of 45] by simp
  ultimately have b: "(2::real) powi expo x \<le> 1 / 2 ^ 45"
    by simp
  define P :: real where "P = 2 powi expo x"
  define R :: real where "R = of_int (round_even (x / P))"
  have P: "0 < P" "P \<le> 1 / 2 ^ 45" using b by (simp_all add: P_def)
  have "rnd x = R * P" using False by (simp add: rnd_def R_def P_def)
  moreover have "x = x / P * P" using P(1) by simp
  ultimately have "rnd x - x = (R - x / P) * P"
    by (metis left_diff_distrib)
  then have "\<bar>rnd x - x\<bar> = \<bar>R - x / P\<bar> * P"
    using P(1) by (simp add: abs_mult)
  also have "\<dots> \<le> 1 / 2 * P"
    using round_even_error[of "x / P"] P(1) unfolding R_def by (intro mult_right_mono) simp_all
  also have "\<dots> \<le> 1 / 2 * (1 / 2 ^ 45)"
    using P(2) by simp
  finally show ?thesis by simp
qed

lemma rnd_5: "rnd 5 = 5"
  using rnd_eval[of 5 50 5629499534213120] by simp

lemma rnd_100: "rnd 100 = 100"
  using rnd_eval[of 100 46 7036874417766400] by simp

lemma rnd_tenth: "rnd 0.1 = 3602879701896397 / 36028797018963968"
  using rnd_eval[of "0.1" 56 7205759403792794] by simp

subsection \<open>What each function leaves alone\<close>

lemma record_call_fields:
  "pending (record_call c w) = pending w" "calls (record_call c w) = calls w @ [c]"
  "checkCount (record_call c w) = checkCount w" "checkInterval (record_call c w) = checkInterval w"
  "task_progress (record_call c w) = task_progress w" "task_status (record_call c w) = task_status w"
  "lastProgress (record_call c w) = lastProgress w" "frames (record_call c w) = frames w"
  "animationFrame (record_call c w) = animationFrame w" "taskId (record_call c w) = taskId w"
  by (simp_all add: record_call_def)

lemma setTimeout_fields:
  "pending (setTimeout cb n w) = pending w @ [(n, cb)]" "calls (setTimeout cb n w) = calls w"
  "checkCount (setTimeout cb n w) = checkCount w" "checkInterval (setTimeout cb n w) = checkInterval w"
  "task_progress (setTimeout cb n w) = task_progress w" "task_status (setTimeout cb n w) = task_status w"
  "lastProgress (setTimeout cb n w) = lastProgress w" "frames (setTimeout cb n w) = frames w"
  "animationFrame (setTimeout cb n w) = animationFrame w" "taskId (setTimeout cb n w) = taskId w"
  by (simp_all add: setTimeout_def)

lemma animateProgress_fields:
  "pending (animateProgress p w) = pending w" "calls (animateProgress p w) = calls w"
  "checkCount (animateProgress p w) = checkCount w" "checkInterval (animateProgress p w) = checkInterval w"
  "task_status (animateProgress p w) = task_status w"
  "lastProgress (animateProgress p w) = lastProgress w" "taskId (animateProgress p w) = taskId w"
  by (simp_all add: animateProgress_def requestAnimationFrame_def Let_def split: option.splits)

lemma cancelAnimationFrame_fields:
  "pending (cancelAnimationFrame h w) = pending w" "calls (cancelAnimationFrame h w) = calls w"
  "checkCount (cancelAnimationFrame h w) = checkCount w"
  "checkInterval (cancelAnimationFrame h w) = checkInterval w"
  "task_status (cancelAnimationFrame h w) = task_status w"
  "task_progress (cancelAnimationFrame h w) = task_progress w"
  "lastProgress (cancelAnimationFrame h w) = lastProgress w"
  "taskId (cancelAnimationFrame h w) = taskId w"
  by (simp_all add: cancelAnimationFrame_def)

lemma updateProgressBar_fields:
  "pending (updateProgressBar p w) = pending w" "calls (updateProgressBar p w) = calls w"
  "checkCount (updateProgressBar p w) = checkCount w" "checkInterval (updateProgressBar p w) = checkInterval w"
  "task_status (updateProgressBar p w) = task_status w" "taskId (updateProgressBar p w) = taskId w"
  by (simp_all add: updateProgressBar_def cancelAnimationFrame_fields animateProgress_fields Let_def
      split: option.splits)

lemma adjustInterval_fields:
  "pending (adjustInterval w) = pending w" "calls (adjustInterval w) = calls w"
  "checkCount (adjustInterval w) = checkCount w + 1"
  "task_progress (adjustInterval w) = task_progress w" "task_status (adjustInterval w) = task_status w"
  "lastProgress (adjustInterval w) = lastProgress w" "frames (adjustInterval w) = frames w"
  "animationFrame (adjustInterval w) = animationFrame w" "taskId (adjustInterval w) = taskId w"
  by (simp_all add: adjustInterval_def Let_def)

lemmas fields =
  record_call_fields setTimeout_fields animateProgress_fields cancelAnimationFrame_fields
  updateProgressBar_fields adjustInterval_fields

subsection \<open>The branches of the handler\<close>

lemma onProcessing_Inr:
  assumes "onProcessing d w = Inr w'"
  shows "pending w' = pending w @ [(checkInterval w', CheckStatus)]"
    and "calls w' = calls w"
    and "checkCount w' = checkCount w + 1"
    and "task_status w \<noteq> None" and "task_status w' \<noteq> None"
  using assms
  by (auto simp: onProcessing_def setTextContent_def Let_def fields split: option.splits)

lemma onProcessing_Inl:
  assumes "onProcessing d w = Inl (e, w')"
  shows "pending w' = pending w" and "calls w' = calls w" and "checkCount w' = checkCount w"
    and "task_status w = None"
  using assms
  by (auto simp: onProcessing_def setTextContent_def Let_def fields split: option.splits)

lemma onCompleted_Inr:
  assumes "onCompleted w = Inr w'"
  shows "pending w' = pending w @ [(1500, CloseCompleted)]" and "calls w' = calls w"
    and "checkCount w' = checkCount w"
  using assms
  by (auto simp: onCompleted_def setTextContent_def fields split: option.splits)

lemma onCompleted_Inl:
  assumes "onCompleted w = Inl (e, w')"
  shows "pending w' = pending w" and "calls w' = calls w" and "checkCount w' = checkCount w"
  using assms
  by (auto simp: onCompleted_def setTextContent_def fields split: option.splits)

lemma onFailed_Inr:
  assumes "onFailed w = Inr w'"
  shows "pending w' = pending w @ [(1500, CloseFailed)]" and "calls w' = calls w"
    and "checkCount w' = checkCount w"
  using assms
  by (auto simp: onFailed_def setTextContent_def fields split: option.splits)

lemma onFailed_Inl:
  assumes "onFailed w = Inl (e, w')"
  shows "w' = w"
  using assms
  by (auto simp: onFailed_def setTextContent_def fields split: option.splits)

subsection \<open>Counting what is still to come\<close>

lemma notified_record_call:
  "notified (record_call c w) = notified w + (if is_notification c then 1 else 0)"
  by (simp add: notified_def record_call_def)

lemma requests_record_call:
  "requests (record_call c w) = requests w + (if is_request c then 1 else 0)"
  by (simp add: requests_def record_call_def)

lemma onError_pending:
  "pending (onError w) = (if checkCount w < 5 then pending w @ [(3000, CheckStatus)] else pending w)"
  by (simp add: onError_def Let_def fields)

lemma onError_notified:
  "notified (onError w) = (if checkCount w < 5 then notified w else notified w + 1)"
  by (simp add: onError_def Let_def notified_def record_call_def setTimeout_def)

lemma onError_requests: "requests (onError w) = requests w"
  by (simp add: onError_def Let_def requests_def record_call_def setTimeout_def)

lemma onError_checkCount:
  "checkCount (onError w) = (if checkCount w < 5 then checkCount w + 1 else checkCount w)"
  by (simp add: onError_def Let_def fields)

text \<open>
  One call of \<open>checkStatus\<close> arms the next poll, or schedules one delayed report, or
  shows one notification, or does none of the three.
\<close>

lemma checkStatus_shape:
  "(\<exists>n. pending (checkStatus r w) = pending w @ [(n, CheckStatus)]
        \<and> notified (checkStatus r w) = notified w)
   \<or> (\<exists>n c. is_close c \<and> pending (checkStatus r w) = pending w @ [(n, c)]
        \<and> notified (checkStatus r w) = notified w)
   \<or> (pending (checkStatus r w) = pending w \<and> notified (checkStatus r w) = notified w + 1)
   \<or> (pending (checkStatus r w) = pending w \<and> notified (checkStatus r w) = notified w)"
proof (cases r)
  case TransportFailure
  then show ?thesis
    by (simp add: checkStatus_def Let_def onError_pending onError_notified
        notified_record_call fields)
next
  case (Response d)
  let ?w0 = "record_call (StatusRequest (taskId w)) w"
  have base: "pending ?w0 = pending w" "notified ?w0 = notified w"
    by (simp_all add: fields notified_record_call)
  show ?thesis
  proof (cases "onResponse d ?w0")
    case (Inl ew)
    obtain e w1 where ew: "ew = (e, w1)" by (cases ew)
    have same: "pending w1 = pending w \<and> calls w1 = calls ?w0"
      using Inl ew onProcessing_Inl(1,2)[of d ?w0 e w1] onCompleted_Inl(1,2)[of ?w0 e w1]
        onFailed_Inl[of ?w0 e w1] base
      by (auto simp: onResponse_def split: if_splits)
    then have "notified w1 = notified w"
      using base by (simp add: notified_def)
    moreover have "checkStatus r w = onError w1"
      using Response Inl ew by (simp add: checkStatus_def Let_def)
    ultimately show ?thesis
      using same by (simp add: onError_pending onError_notified)
  next
    case (Inr w1)
    have cs: "checkStatus r w = w1"
      using Response Inr by (simp add: checkStatus_def Let_def)
    have "(\<exists>n c. (c = CheckStatus \<or> is_close c) \<and> pending w1 = pending w @ [(n, c)]
             \<and> calls w1 = calls ?w0)
          \<or> w1 = ?w0"
      using Inr onProcessing_Inr(1,2)[of d ?w0 w1] onCompleted_Inr(1,2)[of ?w0 w1]
        onFailed_Inr(1,2)[of ?w0 w1] base
      by (auto simp: onResponse_def fields split: if_splits)
    then show ?thesis
    proof
      assume "\<exists>n c. (c = CheckStatus \<or> is_close c) \<and> pending w1 = pending w @ [(n, c)]
                \<and> calls w1 = calls ?w0"
      then obtain n c where c: "c = CheckStatus \<or> is_close c"
        and p: "pending w1 = pending w @ [(n, c)]" and k: "calls w1 = calls ?w0"
        by blast
      have "notified w1 = notified w"
        using k base by (simp add: notified_def)
      then show ?thesis
        using c p cs by auto
    next
      assume "w1 = ?w0"
      then show ?thesis
        using cs base by simp
    qed
  qed
qed

lemma checkStatus_requests: "requests (checkStatus r w) = requests w + 1"
proof (cases r)
  case TransportFailure
  then show ?thesis
    by (simp add: checkStatus_def Let_def onError_requests requests_record_call)
next
  case (Response d)
  let ?w0 = "record_call (StatusRequest (taskId w)) w"
  have r0: "requests ?w0 = requests w + 1"
    by (simp add: requests_record_call)
  show ?thesis
  proof (cases "onResponse d ?w0")
    case (Inl ew)
    obtain e w1 where ew: "ew = (e, w1)" by (cases ew)
    have "calls w1 = calls ?w0"
      using Inl ew onProcessing_Inl(2)[of d ?w0 e w1] onCompleted_Inl(2)[of ?w0 e w1]
        onFailed_Inl[of ?w0 e w1]
      by (auto simp: onResponse_def split: if_splits)
    then have "requests w1 = requests ?w0"
      by (simp add: requests_def)
    then show ?thesis
      using Response Inl ew r0 by (simp add: checkStatus_def Let_def onError_requests)
  next
    case (Inr w1)
    have "calls w1 = calls ?w0"
      using Inr onProcessing_Inr(2)[of d ?w0 w1] onCompleted_Inr(2)[of ?w0 w1]
        onFailed_Inr(2)[of ?w0 w1]
      by (auto simp: onResponse_def fields split: if_splits)
    then have "requests w1 = requests ?w0"
      by (simp add: requests_def)
    then show ?thesis
      using Response Inr r0 by (simp add: checkStatus_def Let_def)
  qed
qed

lemma checkStatus_armed_frame:
  shows "armed (checkStatus r w) + closing (checkStatus r w) + notified (checkStatus r w)
     \<le> armed w + closing w + notified w + 1"
  and "notified w \<le> notified (checkStatus r w)"
  and "armed w \<le> armed (checkStatus r w)"
  and "closing w \<le> closing (checkStatus r w)"
  using checkStatus_shape[of r w]
  by (auto simp: armed_def closing_def)

subsection \<open>Steps of the event loop\<close>

lemma take_check_None:
  "take_check ts = None \<longleftrightarrow> filter (\<lambda>t. snd t = CheckStatus) ts = []"
  by (induction ts) auto

lemma take_check_Some:
  assumes "take_check ts = Some ts'"
  shows "length (filter (\<lambda>t. snd t = CheckStatus) ts)
           = Suc (length (filter (\<lambda>t. snd t = CheckStatus) ts'))"
    and "filter (\<lambda>t. is_close (snd t)) ts' = filter (\<lambda>t. is_close (snd t)) ts"
  using assms
  by (induction ts arbitrary: ts') (auto split: if_splits)

lemma filter_without_nth:
  assumes "i < length ts"
  shows "length (filter P (take i ts @ drop (Suc i) ts)) + (if P (ts ! i) then 1 else 0)
           = length (filter P ts)"
proof -
  have "ts = take i ts @ ts ! i # drop (Suc i) ts"
    using assms by (rule id_take_nth_drop)
  then have "length (filter P ts) = length (filter P (take i ts @ ts ! i # drop (Suc i) ts))"
    by simp
  then show ?thesis by simp
qed

lemma fire_effect:
  assumes "c \<noteq> CheckStatus"
  shows "armed (fire c w) = armed w"
    and "closing (fire c w) = closing w"
    and "notified (fire c w) = notified w + (if is_close c then 1 else 0)"
    and "requests (fire c w) = requests w"
  using assms
  by (cases c;
      simp add: fire_def armed_def closing_def notified_def requests_def record_call_def
        setTimeout_def)+

lemma step_Poll_enabled:
  assumes "take_check (pending w) = Some ts"
  shows "step (Poll r) w = checkStatus r (w\<lparr>pending := ts\<rparr>)"
  using assms by (simp add: step_def)

lemma step_Poll_armed:
  assumes "take_check (pending w) = Some ts"
  shows "armed (w\<lparr>pending := ts\<rparr>) + 1 = armed w"
    and "closing (w\<lparr>pending := ts\<rparr>) = closing w"
    and "notified (w\<lparr>pending := ts\<rparr>) = notified w"
    and "requests (w\<lparr>pending := ts\<rparr>) = requests w"
  using assms take_check_Some[of "pending w" ts]
  by (simp_all add: step_def armed_def closing_def notified_def requests_def)

lemma step_Poll_idle:
  assumes "armed w = 0"
  shows "step (Poll r) w = w"
  using assms take_check_None[of "pending w"]
  by (simp add: step_def armed_def)

lemma step_Frame_counts:
  "armed (step (Frame h) w) = armed w" "closing (step (Frame h) w) = closing w"
  "notified (step (Frame h) w) = notified w" "requests (step (Frame h) w) = requests w"
  "checkCount (step (Frame h) w) = checkCount w"
  by (simp_all add: step_def armed_def closing_def notified_def requests_def fields
      split: option.splits)

text \<open>
  No step raises the number of polls armed, reports scheduled and notifications shown,
  taken together; a notification once shown stays shown.
\<close>

lemma step_budget:
  "armed (step e w) + closing (step e w) + notified (step e w)
     \<le> armed w + closing w + notified w"
proof (cases e)
  case (Poll r)
  show ?thesis
  proof (cases "take_check (pending w)")
    case None
    then show ?thesis using Poll by (simp add: step_def)
  next
    case (Some ts)
    show ?thesis
      using step_Poll_enabled[OF Some, of r] step_Poll_armed[OF Some] checkStatus_armed_frame(1)[of r "w\<lparr>pending := ts\<rparr>"] Poll
      by simp
  qed
next
  case (Fire i)
  show ?thesis
  proof (cases "i < length (pending w) \<and> snd (pending w ! i) \<noteq> CheckStatus")
    case False
    then show ?thesis using Fire by (auto simp: step_def)
  next
    case True
    let ?c = "snd (pending w ! i)"
    let ?w = "w\<lparr>pending := take i (pending w) @ drop (Suc i) (pending w)\<rparr>"
    have s: "step e w = fire ?c ?w"
      using True Fire by (simp add: step_def)
    have a: "armed ?w = armed w"
      using True filter_without_nth[of i "pending w" "\<lambda>t. snd t = CheckStatus"]
      by (simp add: armed_def)
    have c: "closing ?w + (if is_close ?c then 1 else 0) = closing w"
      using True filter_without_nth[of i "pending w" "\<lambda>t. is_close (snd t)"]
      by (simp add: closing_def)
    have n: "notified ?w = notified w"
      by (simp add: notified_def)
    show ?thesis
      using True s a c n fire_effect(1,2,3)[of ?c ?w]
      by (simp split: if_splits)
  qed
next
  case (Frame h)
  then show ?thesis by (simp add: step_Frame_counts)
qed

lemma step_notified_mono: "notified w \<le> notified (step e w)"
proof (cases e)
  case (Poll r)
  show ?thesis
  proof (cases "take_check (pending w)")
    case None
    then show ?thesis using Poll by (simp add: step_def)
  next
    case (Some ts)
    show ?thesis
      using step_Poll_enabled[OF Some, of r] step_Poll_armed[OF Some] checkStatus_armed_frame(2)[of "w\<lparr>pending := ts\<rparr>" r] Poll
      by simp
  qed
next
  case (Fire i)
  show ?thesis
  proof (cases "i < length (pending w) \<and> snd (pending w ! i) \<noteq> CheckStatus")
    case False
    then show ?thesis using Fire by (auto simp: step_def)
  next
    case True
    let ?c = "snd (pending w ! i)"
    let ?w = "w\<lparr>pending := take i (pending w) @ drop (Suc i) (pending w)\<rparr>"
    have "step e w = fire ?c ?w"
      using True Fire by (simp add: step_def)
    moreover have "notified ?w = notified w"
      by (simp add: notified_def)
    ultimately show ?thesis
      using True fire_effect(3)[of ?c ?w] by simp
  qed
next
  case (Frame h)
  then show ?thesis by (simp add: step_Frame_counts)
qed

lemma step_requests:
  "requests (step e w) = requests w \<or> (armed w > 0 \<and> requests (step e w) = requests w + 1)"
proof (cases e)
  case (Poll r)
  show ?thesis
  proof (cases "take_check (pending w)")
    case None
    then show ?thesis using Poll by (simp add: step_def)
  next
    case (Some ts)
    show ?thesis
      using step_Poll_enabled[OF Some, of r] step_Poll_armed[OF Some] checkStatus_requests[of r "w\<lparr>pending := ts\<rparr>"] Poll
      by simp
  qed
next
  case (Fire i)
  show ?thesis
  proof (cases "i < length (pending w) \<and> snd (pending w ! i) \<noteq> CheckStatus")
    case False
    then show ?thesis using Fire by (auto simp: step_def)
  next
    case True
    let ?c = "snd (pending w ! i)"
    let ?w = "w\<lparr>pending := take i (pending w) @ drop (Suc i) (pending w)\<rparr>"
    have "step e w = fire ?c ?w"
      using True Fire by (simp add: step_def)
    moreover have "requests ?w = requests w"
      by (simp add: requests_def)
    ultimately show ?thesis
      using True fire_effect(4)[of ?c ?w] by simp
  qed
next
  case (Frame h)
  then show ?thesis by (simp add: step_Frame_counts)
qed

lemma run_Nil: "run [] w = w"
  by (simp add: run_def)

lemma run_Cons: "run (e # es) w = run es (step e w)"
  by (simp add: run_def)

lemma run_append: "run (es @ es') w = run es' (run es w)"
  by (simp add: run_def)

lemma run_budget:
  "armed (run es w) + closing (run es w) + notified (run es w)
     \<le> armed w + closing w + notified w"
proof (induction es arbitrary: w)
  case Nil
  show ?case by (simp add: run_Nil)
next
  case (Cons e es)
  have "armed (run es (step e w)) + closing (run es (step e w)) + notified (run es (step e w))
          \<le> armed (step e w) + closing (step e w) + notified (step e w)"
    by (rule Cons.IH)
  also have "\<dots> \<le> armed w + closing w + notified w"
    by (rule step_budget)
  finally show ?case by (simp add: run_Cons)
qed

text \<open>Once no poll is armed and no report is scheduled, nothing happens any more.\<close>

lemma run_idle:
  assumes "armed w = 0" and "closing w = 0"
  shows "armed (run es w) = 0 \<and> closing (run es w) = 0
         \<and> notified (run es w) = notified w \<and> requests (run es w) = requests w"
  using assms
proof (induction es arbitrary: w)
  case Nil
  then show ?case by (simp add: run_Nil)
next
  case (Cons e es)
  have b: "armed (step e w) + closing (step e w) + notified (step e w) \<le> notified w"
    using step_budget[of e w] Cons.prems by simp
  have m: "notified w \<le> notified (step e w)" by (rule step_notified_mono)
  have r: "requests (step e w) = requests w"
    using step_requests[of e w] Cons.prems by auto
  have "armed (step e w) = 0" "closing (step e w) = 0" "notified (step e w) = notified w"
    using b m by auto
  then show ?case
    using Cons.IH[of "step e w"] r by (simp add: run_Cons)
qed

subsection \<open>The bar\<close>

lemma onError_bar:
  "task_progress (onError w) = task_progress w" "lastProgress (onError w) = lastProgress w"
  "frames (onError w) = frames w" "animationFrame (onError w) = animationFrame w"
  "task_status (onError w) = task_status w"
  by (simp_all add: onError_def Let_def fields)

lemma fire_bar:
  "task_progress (fire c w) = task_progress w" "checkCount (fire c w) = checkCount w"
  "checkInterval (fire c w) = checkInterval w"
  by (cases c; simp add: fire_def fields)+

lemma updateProgressBar_ignores:
  "lastProgress (updateProgressBar p (w\<lparr>currentStageName := s\<rparr>)) = lastProgress (updateProgressBar p w)"
  "task_progress (updateProgressBar p (w\<lparr>currentStageName := s\<rparr>)) = task_progress (updateProgressBar p w)"
  "frames (updateProgressBar p (w\<lparr>currentStageName := s\<rparr>)) = frames (updateProgressBar p w)"
  "animationFrame (updateProgressBar p (w\<lparr>currentStageName := s\<rparr>))
     = animationFrame (updateProgressBar p w)"
  "lastProgress (updateProgressBar p (record_call c w)) = lastProgress (updateProgressBar p w)"
  "task_progress (updateProgressBar p (record_call c w)) = task_progress (updateProgressBar p w)"
  "frames (updateProgressBar p (record_call c w)) = frames (updateProgressBar p w)"
  "animationFrame (updateProgressBar p (record_call c w)) = animationFrame (updateProgressBar p w)"
  by (simp_all add: updateProgressBar_def animateProgress_def requestAnimationFrame_def
      cancelAnimationFrame_def record_call_def Let_def split: option.splits)

text \<open>A processing report changes the bar and its target as lines 66 to 74 do, and no further.\<close>

lemma checkStatus_processing_bar:
  assumes "success d" and "status d = Some ''processing''"
  shows "lastProgress (checkStatus (Response d) w)
           = lastProgress (updateProgressBar (reportedProgress d) w)"
    and "task_progress (checkStatus (Response d) w)
           = task_progress (updateProgressBar (reportedProgress d) w)"
    and "frames (checkStatus (Response d) w)
           = frames (updateProgressBar (reportedProgress d) w)"
    and "animationFrame (checkStatus (Response d) w)
           = animationFrame (updateProgressBar (reportedProgress d) w)"
  using assms
  by (simp_all add: checkStatus_def onResponse_def onProcessing_def setTextContent_def Let_def
      fields onError_bar updateProgressBar_ignores split: option.splits)

lemma width_ok_cong: "task_progress a = task_progress b \<Longrightarrow> width_ok a = width_ok b"
  by (simp add: width_ok_def)

lemma targetWidth_bounds: "5 \<le> targetWidth p" "targetWidth p \<le> 100"
  by (simp_all add: targetWidth_def)

lemma targetWidth_mono: "p \<le> q \<Longrightarrow> targetWidth p \<le> targetWidth q"
proof -
  assume "p \<le> q"
  then have "p * 100 \<le> q * 100" by simp
  then have "fmul p 100 \<le> fmul q 100"
    unfolding fmul_def by (rule rnd_mono)
  then show ?thesis
    unfolding targetWidth_def by (intro max.mono min.mono order_refl)
qed

text \<open>A step of the animation stays between the two widths it interpolates.\<close>

lemma animate_new_bounds:
  assumes c: "5 \<le> c" "c \<le> 100" and t: "5 \<le> t" "t \<le> 100"
    and far: "\<not> \<bar>fsub t c\<bar> < 1 / 2"
  shows "5 \<le> fadd c (fmul (fsub t c) (rnd 0.1))"
    and "fadd c (fmul (fsub t c) (rnd 0.1)) \<le> 100"
proof -
  define d where "d = fsub t c"
  define m where "m = fmul d (rnd 0.1)"
  have "\<bar>t - c\<bar> \<le> 128" using c t by (simp add: abs_if)
  then have ed: "\<bar>d - (t - c)\<bar> \<le> 1 / 2 ^ 46"
    unfolding d_def fsub_def by (rule rnd_error_small)
  then have db: "\<bar>d\<bar> \<le> 96" using c t by (simp add: abs_if split: if_splits)
  have m_eq: "m = rnd (d * (3602879701896397 / 36028797018963968))"
    by (simp add: m_def fmul_def rnd_tenth)
  have "\<bar>d * (3602879701896397 / 36028797018963968)\<bar> \<le> 128"
    using db by (simp add: abs_if split: if_splits)
  then have em: "\<bar>m - d * (3602879701896397 / 36028797018963968)\<bar> \<le> 1 / 2 ^ 46"
    unfolding m_eq by (rule rnd_error_small)
  have dfar: "d \<le> - (1 / 2) \<or> 1 / 2 \<le> d"
    using far by (simp add: d_def abs_if split: if_splits)
  have "5 \<le> c + m \<and> c + m \<le> 100"
    using dfar ed em c t by (simp add: abs_if split: if_splits) argo+
  then have "rnd 5 \<le> rnd (c + m)" "rnd (c + m) \<le> rnd 100"
    by (simp_all add: rnd_mono)
  then show "5 \<le> fadd c (fmul (fsub t c) (rnd 0.1))"
    and "fadd c (fmul (fsub t c) (rnd 0.1)) \<le> 100"
    by (simp_all add: fadd_def m_def d_def rnd_5 rnd_100)
qed

lemma animateProgress_width_ok:
  assumes "width_ok w"
  shows "width_ok (animateProgress p w)"
proof (cases "task_progress w")
  case None
  then show ?thesis using assms by (simp add: animateProgress_def)
next
  case (Some cw)
  let ?c = "currentWidth cw" and ?t = "targetWidth p"
  have c: "5 \<le> ?c" "?c \<le> 100"
    using assms Some by (simp_all add: width_ok_def)
  have t: "5 \<le> ?t" "?t \<le> 100"
    by (rule targetWidth_bounds)+
  show ?thesis
  proof (cases "\<bar>fsub ?t ?c\<bar> < 1 / 2")
    case True
    then show ?thesis
      using Some t by (simp add: animateProgress_def Let_def width_ok_def currentWidth_def)
  next
    case False
    note n = animate_new_bounds[OF c t False]
    have "task_progress (animateProgress p w)
        = Some (Percent (fadd ?c (fmul (fsub ?t ?c) (rnd 0.1))))"
      using Some False by (simp add: animateProgress_def Let_def requestAnimationFrame_def)
    then show ?thesis
      using n by (simp add: width_ok_def currentWidth_def)
  qed
qed

text \<open>Evaluating one call of the animation from the results of its roundings.\<close>

lemma animateProgress_snap:
  assumes "task_progress w = Some cw" and "currentWidth cw = c" and "targetWidth p = t"
    and "fsub t c = d" and "\<bar>d\<bar> < 1 / 2"
  shows "animateProgress p w = w\<lparr>task_progress := Some (Percent t)\<rparr>"
  using assms by (simp add: animateProgress_def Let_def)

lemma animateProgress_move:
  assumes "task_progress w = Some cw" and "currentWidth cw = c" and "targetWidth p = t"
    and "fsub t c = d" and "\<not> \<bar>d\<bar> < 1 / 2"
    and "fmul d (rnd 0.1) = m" and "fadd c m = n" and "fsub n t = d'"
  shows "animateProgress p w =
    (if \<bar>d'\<bar> > 1 / 2 then requestAnimationFrame p (w\<lparr>task_progress := Some (Percent n)\<rparr>)
     else w\<lparr>task_progress := Some (Percent n)\<rparr>)"
  using assms by (simp add: animateProgress_def Let_def)

lemma currentWidth_Percent: "currentWidth (Percent x) = x"
  by (simp add: currentWidth_def)

text \<open>When the second test of a step passes, for a bar between 5 and 100 percent.\<close>

lemma animate_second_test:
  assumes c: "5 \<le> c" "c \<le> 100" and t: "5 \<le> t" "t \<le> 100"
  shows "0.56 \<le> \<bar>t - c\<bar> \<Longrightarrow> \<not> \<bar>fsub t c\<bar> < 1 / 2"
    and "0.56 \<le> \<bar>t - c\<bar> \<Longrightarrow>
           \<bar>fsub (fadd c (fmul (fsub t c) (rnd 0.1))) t\<bar> > 1 / 2"
    and "\<not> \<bar>fsub t c\<bar> < 1 / 2 \<Longrightarrow> \<bar>t - c\<bar> \<le> 0.55 \<Longrightarrow>
           \<not> \<bar>fsub (fadd c (fmul (fsub t c) (rnd 0.1))) t\<bar> > 1 / 2"
    and "\<not> \<bar>fsub t c\<bar> < 1 / 2 \<Longrightarrow> fadd c (fmul (fsub t c) (rnd 0.1)) \<noteq> t"
proof -
  define d where "d = fsub t c"
  define m where "m = fmul d (rnd 0.1)"
  define n where "n = fadd c m"
  define d' where "d' = fsub n t"
  have "\<bar>t - c\<bar> \<le> 128" using c t by (simp add: abs_if)
  then have ed: "\<bar>d - (t - c)\<bar> \<le> 1 / 2 ^ 46"
    unfolding d_def fsub_def by (rule rnd_error_small)
  then have db: "\<bar>d\<bar> \<le> 96" using c t by (simp add: abs_if split: if_splits)
  have m_eq: "m = rnd (d * (3602879701896397 / 36028797018963968))"
    by (simp add: m_def fmul_def rnd_tenth)
  have "\<bar>d * (3602879701896397 / 36028797018963968)\<bar> \<le> 128"
    using db by (simp add: abs_if split: if_splits)
  then have em: "\<bar>m - d * (3602879701896397 / 36028797018963968)\<bar> \<le> 1 / 2 ^ 46"
    unfolding m_eq by (rule rnd_error_small)
  have mb: "\<bar>m\<bar> \<le> 10" using em db by (simp add: abs_if split: if_splits)
  have "\<bar>c + m\<bar> \<le> 128" using mb c by (simp add: abs_if split: if_splits)
  then have en: "\<bar>n - (c + m)\<bar> \<le> 1 / 2 ^ 46"
    unfolding n_def fadd_def by (rule rnd_error_small)
  have "\<bar>n - t\<bar> \<le> 128" using en mb c t by (simp add: abs_if split: if_splits)
  then have ed': "\<bar>d' - (n - t)\<bar> \<le> 1 / 2 ^ 46"
    unfolding d'_def fsub_def by (rule rnd_error_small)
  show "\<not> \<bar>fsub t c\<bar> < 1 / 2" if "0.56 \<le> \<bar>t - c\<bar>"
    using that ed unfolding d_def[symmetric] by (simp add: abs_if split: if_splits)
  show "\<bar>fsub (fadd c (fmul (fsub t c) (rnd 0.1))) t\<bar> > 1 / 2" if "0.56 \<le> \<bar>t - c\<bar>"
    using that ed em en ed'
    unfolding d_def[symmetric] m_def[symmetric] n_def[symmetric] d'_def[symmetric]
    by (simp add: abs_if split: if_splits; argo)
  show "\<not> \<bar>fsub (fadd c (fmul (fsub t c) (rnd 0.1))) t\<bar> > 1 / 2"
    if "\<not> \<bar>fsub t c\<bar> < 1 / 2" "\<bar>t - c\<bar> \<le> 0.55"
    using that ed em en ed'
    unfolding d_def[symmetric] m_def[symmetric] n_def[symmetric] d'_def[symmetric]
    by (simp add: abs_if split: if_splits; argo)
  show "fadd c (fmul (fsub t c) (rnd 0.1)) \<noteq> t" if "\<not> \<bar>fsub t c\<bar> < 1 / 2"
    using that ed em en
    unfolding d_def[symmetric] m_def[symmetric] n_def[symmetric]
    by (simp add: abs_if split: if_splits; argo)
qed


lemma updateProgressBar_width_ok:
  assumes "width_ok w"
  shows "width_ok (updateProgressBar p w)"
proof -
  have "width_ok (animateProgress p w')" if "task_progress w' = task_progress w" for w'
    using animateProgress_width_ok[of w' p] width_ok_cong[OF that] assms by simp
  then show ?thesis
    using assms
    by (simp add: updateProgressBar_def Let_def width_ok_def[of "_\<lparr>lastProgress := _\<rparr>"]
        width_ok_def[symmetric] cancelAnimationFrame_fields split: option.splits)
qed

lemma checkStatus_width_ok:
  assumes "width_ok w"
  shows "width_ok (checkStatus r w)"
proof (cases r)
  case TransportFailure
  have "task_progress (checkStatus r w) = task_progress w"
    using TransportFailure by (simp add: checkStatus_def Let_def onError_bar fields)
  then show ?thesis using assms width_ok_cong by blast
next
  case (Response d)
  let ?w0 = "record_call (StatusRequest (taskId w)) w"
  have w0: "width_ok ?w0"
    using assms by (simp add: width_ok_def fields)
  consider (proc) "success d" "status d = Some ''processing''"
    | (comp) "success d" "status d \<noteq> Some ''processing''" "status d = Some ''completed''"
    | (other) "\<not> (success d \<and> (status d = Some ''processing'' \<or> status d = Some ''completed''))"
    by blast
  then show ?thesis
  proof cases
    case proc
    have "task_progress (checkStatus r w)
            = task_progress (updateProgressBar (reportedProgress d) w)"
      using Response checkStatus_processing_bar(2)[OF proc] by simp
    then show ?thesis
      using updateProgressBar_width_ok[OF assms] width_ok_cong by blast
  next
    case comp
    have "task_progress (checkStatus r w) = task_progress (animateProgress 1.0 ?w0)"
      using Response comp
      by (simp add: checkStatus_def onResponse_def onCompleted_def setTextContent_def Let_def
          fields onError_bar split: option.splits)
    then show ?thesis
      using animateProgress_width_ok[OF w0] width_ok_cong by blast
  next
    case other
    have "task_progress (checkStatus r w) = task_progress w"
      using Response other
      by (auto simp: checkStatus_def onResponse_def onFailed_def setTextContent_def Let_def
          fields onError_bar split: option.splits)
    then show ?thesis using assms width_ok_cong by blast
  qed
qed

lemma step_width_ok:
  assumes "width_ok w"
  shows "width_ok (step e w)"
proof (cases e)
  case (Poll r)
  have "width_ok (w\<lparr>pending := ts\<rparr>)" for ts
    using assms by (simp add: width_ok_def)
  then show ?thesis
    using Poll assms checkStatus_width_ok
    by (simp add: step_def split: option.splits)
next
  case (Fire i)
  then show ?thesis
    using assms by (simp add: step_def width_ok_def fire_bar)
next
  case (Frame h)
  have "width_ok (w\<lparr>frames := fs\<rparr>)" for fs
    using assms by (simp add: width_ok_def)
  then show ?thesis
    using Frame assms animateProgress_width_ok
    by (simp add: step_def split: option.splits)
qed

lemma run_width_ok:
  assumes "width_ok w"
  shows "width_ok (run es w)"
  using assms
proof (induction es arbitrary: w)
  case Nil
  then show ?case by (simp add: run_Nil)
next
  case (Cons e es)
  then show ?case by (simp add: run_Cons step_width_ok)
qed

subsection \<open>Processing reports and transport failures\<close>

lemma adjustInterval_cong:
  assumes "checkCount a = checkCount b" and "checkInterval a = checkInterval b"
  shows "checkInterval (adjustInterval a) = checkInterval (adjustInterval b)"
  using assms by (simp add: adjustInterval_def Let_def)

lemma adjustInterval_schedule:
  assumes "checkInterval w = spec_interval (checkCount w)"
  shows "checkInterval (adjustInterval w) = spec_interval (checkCount w + 1)"
  using assms by (simp add: adjustInterval_def Let_def spec_interval_def)

lemma spec_interval_mono: "m \<le> n \<Longrightarrow> spec_interval m \<le> spec_interval n"
  by (simp add: spec_interval_def)

lemma checkStatus_processing:
  assumes "success d" and "status d = Some ''processing''" and "task_status w = Some t"
  shows "pending (checkStatus (Response d) w)
           = pending w @ [(checkInterval (adjustInterval w), CheckStatus)]"
    and "checkCount (checkStatus (Response d) w) = checkCount w + 1"
    and "checkInterval (checkStatus (Response d) w) = checkInterval (adjustInterval w)"
    and "task_status (checkStatus (Response d) w) \<noteq> None"
    and "calls (checkStatus (Response d) w) = calls w @ [StatusRequest (taskId w)]"
proof -
  let ?w0 = "record_call (StatusRequest (taskId w)) w"
  let ?w1 = "?w0\<lparr>currentStageName := reportedStage d ?w0\<rparr>"
  let ?w2 = "updateProgressBar (reportedProgress d) ?w1"
  let ?w3 = "?w2\<lparr>task_status := Some (StageElapsed (reportedStage d ?w0) (timeStr d))\<rparr>"
  let ?w4 = "adjustInterval ?w3"
  have st: "task_status ?w2 = Some t"
    using assms(3) by (simp add: fields)
  have cs: "checkStatus (Response d) w = setTimeout CheckStatus (checkInterval ?w4) ?w4"
    using assms(1,2) st
    by (simp add: checkStatus_def onResponse_def onProcessing_def setTextContent_def Let_def)
  have int: "checkInterval ?w4 = checkInterval (adjustInterval w)"
    by (rule adjustInterval_cong) (simp_all add: fields)
  show "pending (checkStatus (Response d) w)
           = pending w @ [(checkInterval (adjustInterval w), CheckStatus)]"
    by (simp add: cs int fields)
  show "checkCount (checkStatus (Response d) w) = checkCount w + 1"
    by (simp add: cs fields)
  show "checkInterval (checkStatus (Response d) w) = checkInterval (adjustInterval w)"
    by (simp add: cs int fields)
  show "task_status (checkStatus (Response d) w) \<noteq> None"
    by (simp add: cs fields)
  show "calls (checkStatus (Response d) w) = calls w @ [StatusRequest (taskId w)]"
    by (simp add: cs fields)
qed

lemma checkStatus_failure:
  shows "pending (checkStatus TransportFailure w)
           = (if checkCount w < 5 then pending w @ [(3000, CheckStatus)] else pending w)"
    and "checkCount (checkStatus TransportFailure w)
           = (if checkCount w < 5 then checkCount w + 1 else checkCount w)"
    and "calls (checkStatus TransportFailure w)
           = calls w @ [StatusRequest (taskId w), ConsoleError, ConsoleError]
               @ (if checkCount w < 5 then []
                  else [HideTaskModal,
                        ShowNotification txt_connection_title txt_connection_message ''error''])"
    and "task_status (checkStatus TransportFailure w) = task_status w"
    and "checkInterval (checkStatus TransportFailure w) = checkInterval w"
    and "taskId (checkStatus TransportFailure w) = taskId w"
  by (simp_all add: checkStatus_def onError_def Let_def fields)

lemma step_Poll_single:
  assumes "pending w = [(n, CheckStatus)]"
  shows "step (Poll r) w = checkStatus r (w\<lparr>pending := []\<rparr>)"
  using assms by (simp add: step_def)

text \<open>A run of processing reports on a page that has its status line.\<close>

lemma processing_run:
  assumes "\<forall>d \<in> set ds. success d \<and> status d = Some ''processing''"
  shows "task_status (run (map (\<lambda>d. Poll (Response d)) ds) (monitorTask tid vid bar (Some t)))
           \<noteq> None
    \<and> checkCount (run (map (\<lambda>d. Poll (Response d)) ds) (monitorTask tid vid bar (Some t)))
        = length ds
    \<and> checkInterval (run (map (\<lambda>d. Poll (Response d)) ds) (monitorTask tid vid bar (Some t)))
        = spec_interval (length ds)
    \<and> pending (run (map (\<lambda>d. Poll (Response d)) ds) (monitorTask tid vid bar (Some t)))
        = [(if ds = [] then 0 else spec_interval (length ds), CheckStatus)]"
  using assms
proof (induction ds rule: rev_induct)
  case Nil
  show ?case  by (simp add: run_Nil monitorTask_def spec_interval_def)
next
  case (snoc d ds)
  let ?w = "run (map (\<lambda>d. Poll (Response d)) ds) (monitorTask tid vid bar (Some t))"
  let ?v = "?w\<lparr>pending := []\<rparr>"
  have ih: "task_status ?w \<noteq> None" "checkCount ?w = length ds"
    "checkInterval ?w = spec_interval (length ds)"
    "pending ?w = [(if ds = [] then 0 else spec_interval (length ds), CheckStatus)]"
  proof -
    have "\<forall>d \<in> set ds. success d \<and> status d = Some ''processing''"
      using snoc.prems by simp
    note IH = snoc.IH[OF this]
    show "task_status ?w \<noteq> None" using IH by blast
    show "checkCount ?w = length ds" using IH by blast
    show "checkInterval ?w = spec_interval (length ds)" using IH by blast
    show "pending ?w = [(if ds = [] then 0 else spec_interval (length ds), CheckStatus)]"
      using IH by blast
  qed
  have d: "success d" "status d = Some ''processing''"
    using snoc.prems by simp_all
  obtain t' where t': "task_status ?v = Some t'"
    using ih(1) by auto
  have r: "run (map (\<lambda>d. Poll (Response d)) (ds @ [d])) (monitorTask tid vid bar (Some t))
             = checkStatus (Response d) ?v"
    using step_Poll_single[OF ih(4), of "Response d"] by (simp only: map_append list.map run_append run_Cons run_Nil)
  have a: "checkInterval (adjustInterval ?v) = spec_interval (length ds + 1)"
    using adjustInterval_schedule[of ?v] ih(2,3) by simp
  have v: "pending ?v = []" "checkCount ?v = length ds" by (simp_all add: ih(2))
  note cp = checkStatus_processing[OF d t']
  have 1: "task_status (checkStatus (Response d) ?v) \<noteq> None" by (rule cp(4))
  have 2: "checkCount (checkStatus (Response d) ?v) = length (ds @ [d])"
    unfolding cp(2) v(2) by simp
  have 3: "checkInterval (checkStatus (Response d) ?v) = spec_interval (length (ds @ [d]))"
    unfolding cp(3) a by simp
  have 4: "pending (checkStatus (Response d) ?v)
      = [(if ds @ [d] = [] then 0 else spec_interval (length (ds @ [d])), CheckStatus)]"
    unfolding cp(1) a v(1) by simp
  show ?case
    unfolding r using 1 2 3 4 by blast
qed

text \<open>A run of transport failures, up to the fifth.\<close>

lemma failure_run:
  assumes "n \<le> 5"
  shows "checkCount (run (replicate n (Poll TransportFailure)) (monitorTask tid vid bar st)) = n
    \<and> pending (run (replicate n (Poll TransportFailure)) (monitorTask tid vid bar st))
        = [(if n = 0 then 0 else 3000, CheckStatus)]
    \<and> notified (run (replicate n (Poll TransportFailure)) (monitorTask tid vid bar st)) = 0
    \<and> requests (run (replicate n (Poll TransportFailure)) (monitorTask tid vid bar st)) = n
    \<and> taskId (run (replicate n (Poll TransportFailure)) (monitorTask tid vid bar st)) = tid
    \<and> task_status (run (replicate n (Poll TransportFailure)) (monitorTask tid vid bar st)) = st
    \<and> checkInterval (run (replicate n (Poll TransportFailure)) (monitorTask tid vid bar st))
        = 1000"
  using assms
proof (induction n)
  case 0
  show ?case by (simp add: run_Nil monitorTask_def notified_def requests_def)
next
  case (Suc n)
  let ?w = "run (replicate n (Poll TransportFailure)) (monitorTask tid vid bar st)"
  let ?v = "?w\<lparr>pending := []\<rparr>"
  have ih: "checkCount ?w = n" "pending ?w = [(if n = 0 then 0 else 3000, CheckStatus)]"
    "notified ?w = 0" "requests ?w = n" "taskId ?w = tid" "task_status ?w = st"
    "checkInterval ?w = 1000"
  proof -
    have "n \<le> 5" using Suc.prems by simp
    note IH = Suc.IH[OF this]
    show "checkCount ?w = n" using IH by blast
    show "pending ?w = [(if n = 0 then 0 else 3000, CheckStatus)]" using IH by blast
    show "notified ?w = 0" using IH by blast
    show "requests ?w = n" using IH by blast
    show "taskId ?w = tid" using IH by blast
    show "task_status ?w = st" using IH by blast
    show "checkInterval ?w = 1000" using IH by blast
  qed
  have "replicate (Suc n) (Poll TransportFailure) = replicate n (Poll TransportFailure) @ [Poll TransportFailure]"
    by (simp add: replicate_append_same)
  then have r: "run (replicate (Suc n) (Poll TransportFailure)) (monitorTask tid vid bar st)
             = checkStatus TransportFailure ?v"
    using step_Poll_single[OF ih(2), of TransportFailure] by (simp only: run_append run_Cons run_Nil)
  have lt: "checkCount ?v < 5"
    using ih(1) Suc.prems by simp
  have "notified ?v = 0" "requests ?v = n"
    using ih(3,4) by (simp_all add: notified_def requests_def)
  then have "notified (checkStatus TransportFailure ?v) = 0"
    "requests (checkStatus TransportFailure ?v) = Suc n"
    using lt checkStatus_armed_frame(2)[of ?v TransportFailure]
      checkStatus_requests[of TransportFailure ?v]
    by (simp_all add: notified_def checkStatus_failure(3))
  then show ?case
    unfolding r
    using lt ih(1,5,6,7) by (simp add: checkStatus_failure)
qed

lemma step_disarmed:
  assumes "armed w = 0"
  shows "armed (step e w) = 0 \<and> requests (step e w) = requests w"
proof (cases e)
  case (Poll r)
  then show ?thesis using step_Poll_idle[OF assms] assms by simp
next
  case (Fire i)
  show ?thesis
  proof (cases "i < length (pending w) \<and> snd (pending w ! i) \<noteq> CheckStatus")
    case False
    then show ?thesis using Fire assms by (auto simp: step_def)
  next
    case True
    let ?c = "snd (pending w ! i)"
    let ?w = "w\<lparr>pending := take i (pending w) @ drop (Suc i) (pending w)\<rparr>"
    have s: "step e w = fire ?c ?w"
      using True Fire by (simp add: step_def)
    have a: "armed ?w = 0"
      using True assms filter_without_nth[of i "pending w" "\<lambda>t. snd t = CheckStatus"]
      by (simp add: armed_def)
    have "requests ?w = requests w"
      by (simp add: requests_def)
    then show ?thesis
      using True s a fire_effect(1,4)[of ?c ?w] by simp
  qed
next
  case (Frame h)
  then show ?thesis using assms by (simp add: step_Frame_counts)
qed

lemma run_disarmed:
  assumes "armed w = 0"
  shows "armed (run es w) = 0 \<and> requests (run es w) = requests w"
  using assms
proof (induction es arbitrary: w)
  case Nil
  then show ?case by (simp add: run_Nil)
next
  case (Cons e es)
  then show ?case
    using step_disarmed[of w e] by (simp add: run_Cons)
qed

lemma monitorTask_counts:
  "armed (monitorTask tid vid bar st) = 1" "closing (monitorTask tid vid bar st) = 0"
  "notified (monitorTask tid vid bar st) = 0" "requests (monitorTask tid vid bar st) = 0"
  by (simp_all add: monitorTask_def armed_def closing_def notified_def requests_def)

text \<open>Any mix of processing reports and transport failures.\<close>

lemma mixed_run:
  assumes "\<forall>p \<in> set ps. p = TransportFailure
             \<or> (\<exists>d. p = Response d \<and> success d \<and> status d = Some ''processing'')"
  shows "task_status (run (map Poll ps) (monitorTask tid vid bar (Some t))) \<noteq> None
    \<and> (pending (run (map Poll ps) (monitorTask tid vid bar (Some t))) = []
        \<or> (\<exists>n. pending (run (map Poll ps) (monitorTask tid vid bar (Some t)))
                  = [(n, CheckStatus)])
          \<and> checkCount (run (map Poll ps) (monitorTask tid vid bar (Some t))) = length ps)"
  using assms
proof (induction ps rule: rev_induct)
  case Nil
  show ?case by (simp add: run_Nil monitorTask_def)
next
  case (snoc p ps)
  let ?w = "run (map Poll ps) (monitorTask tid vid bar (Some t))"
  let ?v = "?w\<lparr>pending := []\<rparr>"
  have "\<forall>p \<in> set ps. p = TransportFailure
          \<or> (\<exists>d. p = Response d \<and> success d \<and> status d = Some ''processing'')"
    using snoc.prems by simp
  note IH = snoc.IH[OF this]
  have st: "task_status ?w \<noteq> None" using IH by blast
  have r: "run (map Poll (ps @ [p])) (monitorTask tid vid bar (Some t)) = step (Poll p) ?w"
    by (simp only: map_append list.map run_append run_Cons run_Nil)
  consider (idle) "pending ?w = []"
    | (armed) n where "pending ?w = [(n, CheckStatus)]" "checkCount ?w = length ps"
    using IH by blast
  then show ?case
  proof cases
    case idle
    then have "step (Poll p) ?w = ?w" by (simp add: step_def)
    then show ?thesis using r st idle by simp
  next
    case armed
    have s: "run (map Poll (ps @ [p])) (monitorTask tid vid bar (Some t)) = checkStatus p ?v"
      using r step_Poll_single[OF armed(1), of p] by simp
    have v: "pending ?v = []" "checkCount ?v = length ps" "task_status ?v = task_status ?w"
      using armed(2) by simp_all
    consider (fail) "p = TransportFailure"
      | (proc) d where "p = Response d" "success d" "status d = Some ''processing''"
      using snoc.prems by auto
    then show ?thesis
    proof cases
      case fail
      have "task_status (checkStatus p ?v) \<noteq> None"
        using fail st v(3) by (simp add: checkStatus_failure(4))
      moreover have "pending (checkStatus p ?v) = []
          \<or> (\<exists>n. pending (checkStatus p ?v) = [(n, CheckStatus)])
            \<and> checkCount (checkStatus p ?v) = length (ps @ [p])"
        using fail v(1,2) by (simp add: checkStatus_failure(1,2))
      ultimately show ?thesis
        unfolding s by blast
    next
      case proc
      obtain t' where t': "task_status ?v = Some t'"
        using st v(3) by auto
      note cp = checkStatus_processing[OF proc(2,3) t']
      have "task_status (checkStatus p ?v) \<noteq> None"
        using cp(4) proc(1) by simp
      moreover have "(\<exists>n. pending (checkStatus p ?v) = [(n, CheckStatus)])
            \<and> checkCount (checkStatus p ?v) = length (ps @ [p])"
        using cp(1,2) proc(1) v(1,2) by simp
      ultimately show ?thesis
        unfolding s by blast
    qed
  qed
qed

text \<open>The sixth transport failure in a row ends the run.\<close>

lemma six_failures:
  shows "pending (run (replicate 6 (Poll TransportFailure)) (monitorTask tid vid bar st)) = []"
    and "calls (run (replicate 6 (Poll TransportFailure)) (monitorTask tid vid bar st))
       = calls (run (replicate 5 (Poll TransportFailure)) (monitorTask tid vid bar st))
         @ [StatusRequest tid, ConsoleError, ConsoleError, HideTaskModal,
            ShowNotification txt_connection_title txt_connection_message ''error'']"
    and "notified (run (replicate 6 (Poll TransportFailure)) (monitorTask tid vid bar st)) = 1"
    and "requests (run (replicate 6 (Poll TransportFailure)) (monitorTask tid vid bar st)) = 6"
proof -
  let ?w5 = "run (replicate 5 (Poll TransportFailure)) (monitorTask tid vid bar st)"
  let ?w6 = "run (replicate 6 (Poll TransportFailure)) (monitorTask tid vid bar st)"
  let ?v = "?w5\<lparr>pending := []\<rparr>"
  have five: "checkCount ?w5 = 5" "pending ?w5 = [(3000, CheckStatus)]" "requests ?w5 = 5"
    "notified ?w5 = 0" "taskId ?w5 = tid"
    using failure_run[of 5 tid vid bar st] by simp_all
  have "replicate 6 (Poll TransportFailure)
          = replicate 5 (Poll TransportFailure) @ [Poll TransportFailure]"
    by (simp add: numeral_eq_Suc)
  then have six: "?w6 = checkStatus TransportFailure ?v"
    using step_Poll_single[OF five(2), of TransportFailure]
    by (simp only: run_append run_Cons run_Nil)
  show "pending ?w6 = []"
    using five(1) by (simp add: six checkStatus_failure(1))
  show c6: "calls ?w6 = calls ?w5
      @ [StatusRequest tid, ConsoleError, ConsoleError, HideTaskModal,
         ShowNotification txt_connection_title txt_connection_message ''error'']"
    using five(1,5) by (simp add: six checkStatus_failure(3))
  show "notified ?w6 = 1"
    using five(4) by (simp add: notified_def c6)
  show "requests ?w6 = 6"
    using five(3) by (simp add: requests_def c6)
qed

text \<open>Nothing lowers the counter of polls.\<close>

lemma checkStatus_checkCount_mono: "checkCount w \<le> checkCount (checkStatus r w)"
proof (cases r)
  case TransportFailure
  then show ?thesis by (simp add: checkStatus_failure(2))
next
  case (Response x)
  let ?w0 = "record_call (StatusRequest (taskId w)) w"
  show ?thesis
  proof (cases "onResponse x ?w0")
    case (Inl ew)
    obtain err w1 where ew: "ew = (err, w1)" by (cases ew)
    have "checkCount w1 = checkCount w"
      using Inl ew onProcessing_Inl(3)[of x ?w0 err w1] onCompleted_Inl(3)[of ?w0 err w1]
        onFailed_Inl[of ?w0 err w1]
      by (auto simp: onResponse_def fields split: if_splits)
    then show ?thesis
      using Response Inl ew by (simp add: checkStatus_def Let_def onError_checkCount)
  next
    case (Inr w1)
    have "checkCount w \<le> checkCount w1"
      using Inr onProcessing_Inr(3)[of x ?w0 w1] onCompleted_Inr(3)[of ?w0 w1]
        onFailed_Inr(3)[of ?w0 w1]
      by (auto simp: onResponse_def fields split: if_splits)
    then show ?thesis
      using Response Inr by (simp add: checkStatus_def Let_def)
  qed
qed

lemma step_checkCount_mono: "checkCount w \<le> checkCount (step e w)"
proof (cases e)
  case (Poll r)
  have "checkCount w \<le> checkCount (checkStatus r (w\<lparr>pending := ts\<rparr>))" for ts
    using checkStatus_checkCount_mono[of "w\<lparr>pending := ts\<rparr>" r] by simp
  then show ?thesis
    using Poll by (simp add: step_def split: option.splits)
next
  case (Fire i)
  then show ?thesis by (simp add: step_def fire_bar)
next
  case (Frame h)
  then show ?thesis by (simp add: step_Frame_counts)
qed

lemma run_checkCount_mono: "checkCount w \<le> checkCount (run es w)"
proof (induction es arbitrary: w)
  case Nil
  show ?case by (simp add: run_Nil)
next
  case (Cons e es)
  have "checkCount w \<le> checkCount (step e w)" by (rule step_checkCount_mono)
  also have "\<dots> \<le> checkCount (run es (step e w))" by (rule Cons.IH)
  finally show ?case by (simp add: run_Cons)
qed

text \<open>An outcome once scheduled or shown is never lost.\<close>

lemma step_outcome_kept:
  "closing w + notified w \<le> closing (step e w) + notified (step e w)"
proof (cases e)
  case (Poll r)
  show ?thesis
  proof (cases "take_check (pending w)")
    case None
    then show ?thesis using Poll by (simp add: step_def)
  next
    case (Some ts)
    show ?thesis
      using step_Poll_enabled[OF Some, of r] step_Poll_armed(2,3)[OF Some]
        checkStatus_armed_frame(2)[of "w\<lparr>pending := ts\<rparr>" r]
        checkStatus_armed_frame(4)[of "w\<lparr>pending := ts\<rparr>" r] Poll
      by simp
  qed
next
  case (Fire i)
  show ?thesis
  proof (cases "i < length (pending w) \<and> snd (pending w ! i) \<noteq> CheckStatus")
    case False
    then show ?thesis using Fire by (auto simp: step_def)
  next
    case True
    let ?c = "snd (pending w ! i)"
    let ?w = "w\<lparr>pending := take i (pending w) @ drop (Suc i) (pending w)\<rparr>"
    have s: "step e w = fire ?c ?w"
      using True Fire by (simp add: step_def)
    have c: "closing ?w + (if is_close ?c then 1 else 0) = closing w"
      using True filter_without_nth[of i "pending w" "\<lambda>t. is_close (snd t)"]
      by (simp add: closing_def)
    have n: "notified ?w = notified w"
      by (simp add: notified_def)
    show ?thesis
      using True s c n fire_effect(2,3)[of ?c ?w]
      by (simp split: if_splits)
  qed
next
  case (Frame h)
  then show ?thesis by (simp add: step_Frame_counts)
qed

lemma run_outcome_kept:
  "closing w + notified w \<le> closing (run es w) + notified (run es w)"
proof (induction es arbitrary: w)
  case Nil
  show ?case by (simp add: run_Nil)
next
  case (Cons e es)
  have "closing w + notified w \<le> closing (step e w) + notified (step e w)"
    by (rule step_outcome_kept)
  also have "\<dots> \<le> closing (run es (step e w)) + notified (run es (step e w))"
    by (rule Cons.IH)
  finally show ?case by (simp add: run_Cons)
qed

text \<open>The interval only takes the three values of the table, and never goes down.\<close>

lemma adjustInterval_interval:
  assumes "checkInterval w \<in> {1000, 2000, 3000}"
  shows "checkInterval (adjustInterval w) \<in> {1000, 2000, 3000}"
    and "checkInterval w \<le> checkInterval (adjustInterval w)"
  using assms by (auto simp: adjustInterval_def Let_def)

lemma checkStatus_interval:
  "checkInterval (checkStatus r w) = checkInterval w
   \<or> checkInterval (checkStatus r w) = checkInterval (adjustInterval w)"
proof (cases r)
  case TransportFailure
  then show ?thesis by (simp add: checkStatus_failure(5))
next
  case (Response d)
  consider (proc) t where "success d" "status d = Some ''processing''" "task_status w = Some t"
    | (thrown) "success d" "status d = Some ''processing''" "task_status w = None"
    | (other) "\<not> (success d \<and> status d = Some ''processing'')"
    by (cases "task_status w") auto
  then show ?thesis
  proof cases
    case proc
    then show ?thesis
      using Response checkStatus_processing(3)[of d w t] by simp
  next
    case thrown
    then have "checkInterval (checkStatus r w) = checkInterval w"
      using Response
      by (simp add: checkStatus_def onResponse_def onProcessing_def setTextContent_def Let_def
          onError_def fields)
    then show ?thesis by simp
  next
    case other
    then have "checkInterval (checkStatus r w) = checkInterval w"
      using Response
      by (auto simp: checkStatus_def onResponse_def onCompleted_def onFailed_def
          setTextContent_def Let_def onError_def fields split: option.splits)
    then show ?thesis by simp
  qed
qed

lemma step_interval:
  assumes "checkInterval w \<in> {1000, 2000, 3000}"
  shows "checkInterval (step e w) \<in> {1000, 2000, 3000}
    \<and> checkInterval w \<le> checkInterval (step e w)"
proof (cases e)
  case (Poll r)
  have "checkInterval (checkStatus r v) \<in> {1000, 2000, 3000}
      \<and> checkInterval w \<le> checkInterval (checkStatus r v)"
    if "checkInterval v = checkInterval w" for v
    using that assms checkStatus_interval[of r v] adjustInterval_interval[of v]
    by auto
  from this[of "w\<lparr>pending := ts\<rparr>" for ts] show ?thesis
    using Poll assms by (simp add: step_def split: option.splits)
next
  case (Fire i)
  then show ?thesis using assms by (simp add: step_def fire_bar)
next
  case (Frame h)
  then show ?thesis
    using assms by (simp add: step_def fields split: option.splits)
qed

lemma run_interval:
  assumes "checkInterval w \<in> {1000, 2000, 3000}"
  shows "checkInterval (run es w) \<in> {1000, 2000, 3000}
    \<and> checkInterval w \<le> checkInterval (run es w)"
  using assms
proof (induction es arbitrary: w)
  case Nil
  then show ?case by (simp add: run_Nil)
next
  case (Cons e es)
  note s = step_interval[OF Cons.prems, of e]
  have "checkInterval (run es (step e w)) \<in> {1000, 2000, 3000}
      \<and> checkInterval (step e w) \<le> checkInterval (run es (step e w))"
    using Cons.IH[of "step e w"] s by blast
  then show ?case
    using s by (simp add: run_Cons)
qed

subsection \<open>Outcomes and navigation\<close>

lemma terminal_pending: "terminal r (w\<lparr>pending := ts\<rparr>) = terminal r w"
  by (cases r; cases "task_status w") (simp_all add: terminal_def)

text \<open>A terminal poll result arms nothing and schedules or shows exactly one outcome.\<close>

lemma checkStatus_terminal:
  assumes "terminal r w"
  shows "armed (checkStatus r w) = armed w"
    and "closing (checkStatus r w) + notified (checkStatus r w) = closing w + notified w + 1"
proof -
  have "armed (checkStatus r w) = armed w
      \<and> closing (checkStatus r w) + notified (checkStatus r w) = closing w + notified w + 1"
  proof (cases r)
    case TransportFailure
    then have "5 \<le> checkCount w" using assms by (simp add: terminal_def)
    then show ?thesis
      using TransportFailure
      by (simp add: checkStatus_failure armed_def closing_def notified_def)
  next
    case (Response d)
    let ?w0 = "record_call (StatusRequest (taskId w)) w"
    consider (rejected) "\<not> success d"
      | (finished) t where "success d" "status d = Some ''completed'' \<or> status d = Some ''failed''"
          "task_status w = Some t"
      | (thrown) "success d" "status d = Some ''completed'' \<or> status d = Some ''failed''
            \<or> status d = Some ''processing''" "task_status w = None" "5 \<le> checkCount w"
      using assms Response by (auto simp: terminal_def split: if_splits option.splits)
    then show ?thesis
    proof cases
      case rejected
      then show ?thesis
        using Response
        by (simp add: checkStatus_def onResponse_def Let_def fields armed_def closing_def
            notified_def)
    next
      case finished
      then show ?thesis
        using Response
        by (auto simp: checkStatus_def onResponse_def onCompleted_def onFailed_def
            setTextContent_def Let_def fields armed_def closing_def notified_def)
    next
      case thrown
      then show ?thesis
        using Response
        by (auto simp: checkStatus_def onResponse_def onProcessing_def onCompleted_def
            onFailed_def setTextContent_def onError_def Let_def fields armed_def closing_def
            notified_def)
    qed
  qed
  then show "armed (checkStatus r w) = armed w"
    and "closing (checkStatus r w) + notified (checkStatus r w) = closing w + notified w + 1"
    by simp_all
qed

lemma navigated_record_call:
  "navigated (record_call c w) = navigated w + (if is_navigate c then 1 else 0)"
  by (simp add: navigated_def record_call_def)

lemma checkStatus_navigation:
  shows "navigating (checkStatus r w) = navigating w"
    and "navigated (checkStatus r w) = navigated w"
proof -
  have 1: "navigating (checkStatus r w) = navigating w"
    using checkStatus_shape[of r w] by (auto simp: navigating_def)
  have 2: "navigated (checkStatus r w) = navigated w"
  proof (cases r)
    case TransportFailure
    then show ?thesis by (simp add: navigated_def checkStatus_failure(3))
  next
    case (Response d)
    let ?w0 = "record_call (StatusRequest (taskId w)) w"
    have n0: "navigated ?w0 = navigated w"
      by (simp add: navigated_record_call)
    have e: "navigated (onError v) = navigated v" for v
      by (simp add: onError_def Let_def navigated_def record_call_def setTimeout_def)
    show ?thesis
    proof (cases "onResponse d ?w0")
      case (Inl ew)
      obtain err w1 where ew: "ew = (err, w1)" by (cases ew)
      have "calls w1 = calls ?w0"
        using Inl ew onProcessing_Inl(2)[of d ?w0 err w1] onCompleted_Inl(2)[of ?w0 err w1]
          onFailed_Inl[of ?w0 err w1]
        by (auto simp: onResponse_def split: if_splits)
      then have "navigated w1 = navigated ?w0"
        by (simp add: navigated_def)
      then show ?thesis
        using Response Inl ew n0 by (simp add: checkStatus_def Let_def e)
    next
      case (Inr w1)
      have "calls w1 = calls ?w0"
        using Inr onProcessing_Inr(2)[of d ?w0 w1] onCompleted_Inr(2)[of ?w0 w1]
          onFailed_Inr(2)[of ?w0 w1]
        by (auto simp: onResponse_def fields split: if_splits)
      then have "navigated w1 = navigated ?w0"
        by (simp add: navigated_def)
      then show ?thesis
        using Response Inr n0 by (simp add: checkStatus_def Let_def)
    qed
  qed
  show "navigating (checkStatus r w) = navigating w"
    and "navigated (checkStatus r w) = navigated w"
    using 1 2 by simp_all
qed

lemma fire_navigation:
  shows "navigating (fire c w) = navigating w + (if c = CloseCompleted then 1 else 0)"
    and "navigated (fire c w) = navigated w + (if c = NavigateDetail then 1 else 0)"
    and "c = NavigateDetail \<Longrightarrow> calls (fire c w) = calls w @ [Navigate (''transcription/'' @ videoId w)]"
  by (cases c;
      simp add: fire_def navigating_def navigated_def record_call_def setTimeout_def)+

lemma take_check_navigating:
  assumes "take_check ts = Some ts'"
  shows "filter (\<lambda>t. snd t = NavigateDetail) ts' = filter (\<lambda>t. snd t = NavigateDetail) ts"
  using assms
  by (induction ts arbitrary: ts') (auto split: if_splits)

text \<open>The navigation callback is only ever called, or scheduled, after a notification.\<close>

lemma step_navigation:
  assumes "navigating w + navigated w \<le> notified w"
  shows "navigating (step e w) + navigated (step e w) \<le> notified (step e w)"
proof (cases e)
  case (Poll r)
  show ?thesis
  proof (cases "take_check (pending w)")
    case None
    then show ?thesis using Poll assms by (simp add: step_def)
  next
    case (Some ts)
    let ?v = "w\<lparr>pending := ts\<rparr>"
    have "navigating ?v = navigating w" "navigated ?v = navigated w" "notified ?v = notified w"
      using take_check_navigating[OF Some]
      by (simp_all add: navigating_def navigated_def notified_def)
    then show ?thesis
      using step_Poll_enabled[OF Some, of r] checkStatus_navigation[of r ?v]
        checkStatus_armed_frame(2)[of ?v r] Poll assms
      by simp
  qed
next
  case (Fire i)
  show ?thesis
  proof (cases "i < length (pending w) \<and> snd (pending w ! i) \<noteq> CheckStatus")
    case False
    then show ?thesis using Fire assms by (auto simp: step_def)
  next
    case True
    let ?c = "snd (pending w ! i)"
    let ?w = "w\<lparr>pending := take i (pending w) @ drop (Suc i) (pending w)\<rparr>"
    have s: "step e w = fire ?c ?w"
      using True Fire by (simp add: step_def)
    have g: "navigating ?w + (if ?c = NavigateDetail then 1 else 0) = navigating w"
      using True filter_without_nth[of i "pending w" "\<lambda>t. snd t = NavigateDetail"]
      by (simp add: navigating_def)
    have d: "navigated ?w = navigated w" "notified ?w = notified w"
      by (simp_all add: navigated_def notified_def)
    show ?thesis
      using True s g d assms fire_navigation(1,2)[of ?c ?w] fire_effect(3)[of ?c ?w]
      by (cases ?c) (simp_all split: if_splits)
  qed
next
  case (Frame h)
  then show ?thesis
    using assms
    by (simp add: step_def navigating_def navigated_def notified_def fields split: option.splits)
qed

lemma run_navigation:
  assumes "navigating w + navigated w \<le> notified w"
  shows "navigating (run es w) + navigated (run es w) \<le> notified (run es w)"
  using assms
proof (induction es arbitrary: w)
  case Nil
  then show ?case by (simp add: run_Nil)
next
  case (Cons e es)
  then show ?case
    using step_navigation[of w e] by (simp add: run_Cons)
qed


text \<open>The video the monitor was started for never changes.\<close>

lemma videoId_fields:
  "videoId (record_call c w) = videoId w" "videoId (setTimeout cb n w) = videoId w"
  "videoId (animateProgress p w) = videoId w" "videoId (cancelAnimationFrame h w) = videoId w"
  "videoId (adjustInterval w) = videoId w" "videoId (fire cb w) = videoId w"
  by (simp_all add: record_call_def setTimeout_def animateProgress_def requestAnimationFrame_def
      cancelAnimationFrame_def adjustInterval_def fire_def Let_def
      split: option.splits callback.splits)

lemma videoId_updateProgressBar: "videoId (updateProgressBar p w) = videoId w"
  by (simp add: updateProgressBar_def Let_def videoId_fields split: option.splits)

lemma videoId_onError: "videoId (onError w) = videoId w"
  by (simp add: onError_def Let_def videoId_fields)

lemma videoId_checkStatus: "videoId (checkStatus r w) = videoId w"
proof (cases r)
  case TransportFailure
  then show ?thesis by (simp add: checkStatus_def Let_def videoId_onError videoId_fields)
next
  case (Response d)
  let ?w0 = "record_call (StatusRequest (taskId w)) w"
  have "videoId w1 = videoId w" if "onResponse d ?w0 = Inr w1" for w1
    using that
    by (auto simp: onResponse_def onProcessing_def onCompleted_def onFailed_def
        setTextContent_def Let_def videoId_fields videoId_updateProgressBar
        split: if_splits option.splits)
  moreover have "videoId w1 = videoId w" if "onResponse d ?w0 = Inl (err, w1)" for err w1
    using that
    by (auto simp: onResponse_def onProcessing_def onCompleted_def onFailed_def
        setTextContent_def Let_def videoId_fields videoId_updateProgressBar
        split: if_splits option.splits)
  ultimately show ?thesis
    using Response
    by (auto simp: checkStatus_def Let_def videoId_onError split: sum.splits)
qed

lemma videoId_step: "videoId (step e w) = videoId w"
  by (cases e)
    (simp_all add: step_def videoId_checkStatus videoId_fields split: option.splits)

lemma videoId_run: "videoId (run es w) = videoId w"
  by (induction es arbitrary: w) (simp_all add: run_Nil run_Cons videoId_step)

section \<open>The claims\<close>

subsection \<open>C1: the retry limit\<close>

text \<open>
  C1, as the code has it. Start the monitor and let every status request fail. Through
  the fifth failure no outcome is shown and a retry is armed; from the sixth failure on
  the connection error has been shown, once, and no poll is armed: the terminal error
  comes on exactly the sixth transport failure in a row, never earlier. The counter the
  limit is checked against is never reset: no sequence of events, successful polls
  included, lowers it.
\<close>

theorem retry_limit_from_fresh:
  "notified (run (replicate n (Poll TransportFailure)) (monitorTask tid vid bar st))
     = (if n \<le> 5 then 0 else 1)
   \<and> armed (run (replicate n (Poll TransportFailure)) (monitorTask tid vid bar st))
     = (if n \<le> 5 then 1 else 0)
   \<and> checkCount w \<le> checkCount (run es w)"
proof -
  let ?w0 = "monitorTask tid vid bar st"
  have early: "notified (run (replicate n (Poll TransportFailure)) ?w0) = 0
      \<and> armed (run (replicate n (Poll TransportFailure)) ?w0) = 1"
    if "n \<le> 5"
    using failure_run[OF that, of tid vid bar st] by (simp add: armed_def)
  have late: "notified (run (replicate n (Poll TransportFailure)) ?w0) = 1
      \<and> armed (run (replicate n (Poll TransportFailure)) ?w0) = 0"
    if "\<not> n \<le> 5"
  proof -
    let ?w6 = "run (replicate 6 (Poll TransportFailure)) ?w0"
    note six = six_failures[of tid vid bar st]
    have idle: "armed ?w6 = 0" "closing ?w6 = 0"
      by (simp_all add: armed_def closing_def six(1))
    have "n = 6 + (n - 6)"
      using that by simp
    then have "replicate n (Poll TransportFailure)
        = replicate 6 (Poll TransportFailure) @ replicate (n - 6) (Poll TransportFailure)"
      by (metis replicate_add)
    then have "run (replicate n (Poll TransportFailure)) ?w0
        = run (replicate (n - 6) (Poll TransportFailure)) ?w6"
      by (simp only: run_append)
    then show ?thesis
      using run_idle[OF idle, of "replicate (n - 6) (Poll TransportFailure)"] six(3) by simp
  qed
  show ?thesis
    using early late run_checkCount_mono[of w es] by simp
qed

theorem retry_limit_from_fresh_witness:
  "notified (run (replicate 5 (Poll TransportFailure)) fresh_monitor) = 0
   \<and> notified (run (replicate 6 (Poll TransportFailure)) fresh_monitor) = 1
   \<and> armed (run (replicate 6 (Poll TransportFailure)) fresh_monitor) = 0
   \<and> checkCount fresh_monitor
       \<le> checkCount (run [Poll (Response (processing_report 0.125))] fresh_monitor)"
  using retry_limit_from_fresh[of 5 "''task-1''" "''BV1''" "Some (Percent 5)"
      "Some (Literal txt_downloading)" fresh_monitor "[Poll (Response (processing_report 0.125))]"]
    retry_limit_from_fresh[of 6 "''task-1''" "''BV1''" "Some (Percent 5)"
      "Some (Literal txt_downloading)" fresh_monitor "[Poll (Response (processing_report 0.125))]"]
  by (simp add: fresh_monitor_def)

text \<open>
  C1 as stated fails on a fresh monitor that receives five transport failures, then one
  processing report, then one more transport failure: the successful poll has reset
  nothing, and the first failure after it arms no retry and shows the connection error.
\<close>

theorem retry_budget_counterexample:
  "pending (run (replicate 5 (Poll TransportFailure)) fresh_monitor) = [(3000, CheckStatus)]
   \<and> notified (run (replicate 5 (Poll TransportFailure)
        @ [Poll (Response (processing_report 0.125))]) fresh_monitor) = 0
   \<and> pending (run (replicate 5 (Poll TransportFailure)
        @ [Poll (Response (processing_report 0.125))]) fresh_monitor) = [(1000, CheckStatus)]
   \<and> pending (run (replicate 5 (Poll TransportFailure)
        @ [Poll (Response (processing_report 0.125)), Poll TransportFailure]) fresh_monitor) = []
   \<and> notified (run (replicate 5 (Poll TransportFailure)
        @ [Poll (Response (processing_report 0.125)), Poll TransportFailure]) fresh_monitor) = 1"
proof -
  let ?w5 = "run (replicate 5 (Poll TransportFailure)) fresh_monitor"
  let ?v5 = "?w5\<lparr>pending := []\<rparr>"
  let ?w6 = "checkStatus (Response (processing_report 0.125)) ?v5"
  let ?v6 = "?w6\<lparr>pending := []\<rparr>"
  have five: "checkCount ?w5 = 5" "pending ?w5 = [(3000, CheckStatus)]" "notified ?w5 = 0"
    "task_status ?w5 = Some (Literal txt_downloading)" "checkInterval ?w5 = 1000"
    using failure_run[of 5 "''task-1''" "''BV1''" "Some (Percent 5)"
        "Some (Literal txt_downloading)"]
    by (simp_all add: fresh_monitor_def)
  have r: "success (processing_report 0.125)"
    "status (processing_report 0.125) = Some ''processing''"
    by (simp_all add: processing_report_def)
  have st: "task_status ?v5 = Some (Literal txt_downloading)"
    using five(4) by simp
  note six = checkStatus_processing[OF r st]
  have i6: "checkInterval (adjustInterval ?v5) = 1000"
    using five(1,5) by (simp add: adjustInterval_def Let_def)
  have p6: "pending ?w6 = [(1000, CheckStatus)]"
    using six(1) i6 by simp
  have c6: "checkCount ?w6 = 6"
    using six(2) five(1) by simp
  have n6: "notified ?w6 = 0"
    using six(5) five(3) by (simp add: notified_def)
  have s6: "run (replicate 5 (Poll TransportFailure)
        @ [Poll (Response (processing_report 0.125))]) fresh_monitor = ?w6"
    using step_Poll_single[OF five(2), of "Response (processing_report 0.125)"]
    by (simp only: run_append run_Cons run_Nil)
  have "run (replicate 5 (Poll TransportFailure)
        @ [Poll (Response (processing_report 0.125)), Poll TransportFailure]) fresh_monitor
      = step (Poll TransportFailure) ?w6"
    using s6 by (simp only: run_append run_Cons run_Nil)
  then have s7: "run (replicate 5 (Poll TransportFailure)
        @ [Poll (Response (processing_report 0.125)), Poll TransportFailure]) fresh_monitor
      = checkStatus TransportFailure ?v6"
    using step_Poll_single[OF p6, of TransportFailure] by simp
  have "notified ?v6 = 0"
    using n6 by (simp add: notified_def)
  then have n7: "notified (checkStatus TransportFailure ?v6) = 1"
    using c6 by (simp add: notified_def checkStatus_failure(3))
  have p7: "pending (checkStatus TransportFailure ?v6) = []"
    using c6 by (simp add: checkStatus_failure(1))
  show ?thesis
    unfolding s6 s7 using five(2) n6 p6 n7 p7 by simp
qed

subsection \<open>C2: the poll interval\<close>

text \<open>
  C2. Start the monitor on a page that has its status line and let every poll return a
  processing report. After \<open>n\<close> reports \<^verbatim>\<open>checkCount\<close> is \<open>n\<close> and the interval is the one
  of the schedule table for \<open>n\<close>: 1000 ms up to 10, 2000 ms from 11 to 30, 3000 ms from
  31 on; the next poll is armed with exactly that interval; and the interval after any
  prefix of the reports is at most the interval after all of them. More generally, on
  any page and under any sequence of poll results, timers and animation frames, the
  interval never goes down as the run goes on.
\<close>

theorem poll_interval_schedule:
  assumes "\<forall>d \<in> set ds. success d \<and> status d = Some ''processing''"
  shows "checkCount (run (map (\<lambda>d. Poll (Response d)) ds) (monitorTask tid vid bar (Some t)))
           = length ds
    \<and> checkInterval (run (map (\<lambda>d. Poll (Response d)) ds) (monitorTask tid vid bar (Some t)))
        = (if length ds \<le> 10 then 1000 else if length ds \<le> 30 then 2000 else 3000)
    \<and> (ds \<noteq> [] \<longrightarrow>
          pending (run (map (\<lambda>d. Poll (Response d)) ds) (monitorTask tid vid bar (Some t)))
            = [(if length ds \<le> 10 then 1000 else if length ds \<le> 30 then 2000 else 3000,
                CheckStatus)])
    \<and> (\<forall>k. checkInterval (run (map (\<lambda>d. Poll (Response d)) (take k ds))
                              (monitorTask tid vid bar (Some t)))
             \<le> checkInterval (run (map (\<lambda>d. Poll (Response d)) ds)
                                 (monitorTask tid vid bar (Some t))))
    \<and> checkInterval (run es (monitorTask tid vid bar st))
        \<le> checkInterval (run es' (run es (monitorTask tid vid bar st)))"
proof -
  note all = processing_run[OF assms, of tid vid bar t]
  have "checkInterval (run es (monitorTask tid vid bar st)) \<in> {1000, 2000, 3000}"
    using run_interval[of "monitorTask tid vid bar st" es] by (simp add: monitorTask_def)
  then have lifetime: "checkInterval (run es (monitorTask tid vid bar st))
      \<le> checkInterval (run es' (run es (monitorTask tid vid bar st)))"
    using run_interval[of "run es (monitorTask tid vid bar st)" es'] by blast
  have prefix: "checkInterval (run (map (\<lambda>d. Poll (Response d)) (take k ds))
                               (monitorTask tid vid bar (Some t)))
      \<le> checkInterval (run (map (\<lambda>d. Poll (Response d)) ds) (monitorTask tid vid bar (Some t)))"
    for k
  proof -
    have "\<forall>d \<in> set (take k ds). success d \<and> status d = Some ''processing''"
      using assms by (meson in_set_takeD)
    note part = processing_run[OF this, of tid vid bar t]
    have "spec_interval (length (take k ds)) \<le> spec_interval (length ds)"
      by (rule spec_interval_mono) simp
    then show ?thesis
      using part all by presburger
  qed
  have table: "spec_interval (length ds)
      = (if length ds \<le> 10 then 1000 else if length ds \<le> 30 then 2000 else 3000)"
    by (simp add: spec_interval_def)
  have 1: "checkCount (run (map (\<lambda>d. Poll (Response d)) ds) (monitorTask tid vid bar (Some t)))
      = length ds"
    using all by blast
  have 2: "checkInterval (run (map (\<lambda>d. Poll (Response d)) ds) (monitorTask tid vid bar (Some t)))
      = (if length ds \<le> 10 then 1000 else if length ds \<le> 30 then 2000 else 3000)"
    using all table by presburger
  have 3: "pending (run (map (\<lambda>d. Poll (Response d)) ds) (monitorTask tid vid bar (Some t)))
      = [(if length ds \<le> 10 then 1000 else if length ds \<le> 30 then 2000 else 3000,
          CheckStatus)]"
    if "ds \<noteq> []"
    using all table that by presburger
  show ?thesis
    using 1 2 3 prefix lifetime by blast
qed

theorem poll_interval_schedule_witness:
  "success (processing_report 0.25) \<and> status (processing_report 0.25) = Some ''processing''
   \<and> checkCount (run (map (\<lambda>d. Poll (Response d)) (replicate 11 (processing_report 0.25)))
        fresh_monitor) = 11
   \<and> pending (run (map (\<lambda>d. Poll (Response d)) (replicate 11 (processing_report 0.25)))
        fresh_monitor) = [(2000, CheckStatus)]
   \<and> checkInterval (run (map (\<lambda>d. Poll (Response d)) (replicate 10 (processing_report 0.25)))
        fresh_monitor) = 1000"
proof -
  have h: "\<forall>d \<in> set (replicate n (processing_report 0.25)).
             success d \<and> status d = Some ''processing''" for n
    by (simp add: processing_report_def)
  show ?thesis
    using poll_interval_schedule[OF h, of 11 "''task-1''" "''BV1''" "Some (Percent 5)"
        "Literal txt_downloading"]
      poll_interval_schedule[OF h, of 10 "''task-1''" "''BV1''" "Some (Percent 5)"
        "Literal txt_downloading"]
    by (simp add: fresh_monitor_def processing_report_def)
qed

subsection \<open>C3: the outcome is delivered exactly once\<close>

text \<open>
  C3. Start the monitor and let the host deliver any sequence of poll results, timers
  and animation frames; call the state reached \<open>W\<close>. The polls armed, the outcome
  reports scheduled and the outcome notifications shown number at most one taken
  together, and the navigation callback is scheduled or called at most as often as a
  notification was shown. A terminal poll result (a completed or failed report, a
  response with \<^verbatim>\<open>success: false\<close>, the transport failure after the retries) arms no
  poll and schedules or shows exactly one outcome. When the timer of a scheduled report
  fires, the one notification is shown, and for a completed task the navigation is
  scheduled; when that timer fires, the navigation callback is called once, with the
  path of the video. From the terminal state on, whatever the host does, exactly one
  outcome stays scheduled or shown, no poll is armed, no status request is issued, and a
  poll completion changes nothing at all: it produces no outcome and schedules no timer.
\<close>

theorem outcome_exactly_once:
  "armed (run es (monitorTask tid vid bar st))
     + closing (run es (monitorTask tid vid bar st))
     + notified (run es (monitorTask tid vid bar st)) \<le> 1
   \<and> navigating (run es (monitorTask tid vid bar st))
       + navigated (run es (monitorTask tid vid bar st))
       \<le> notified (run es (monitorTask tid vid bar st))
   \<and> (armed (run es (monitorTask tid vid bar st)) = 1
        \<and> terminal r (run es (monitorTask tid vid bar st)) \<longrightarrow>
        armed (step (Poll r) (run es (monitorTask tid vid bar st))) = 0
        \<and> closing (step (Poll r) (run es (monitorTask tid vid bar st)))
            + notified (step (Poll r) (run es (monitorTask tid vid bar st))) = 1)
   \<and> (i < length (pending (run es (monitorTask tid vid bar st)))
        \<and> is_close (snd (pending (run es (monitorTask tid vid bar st)) ! i)) \<longrightarrow>
        notified (step (Fire i) (run es (monitorTask tid vid bar st))) = 1
        \<and> closing (step (Fire i) (run es (monitorTask tid vid bar st))) = 0
        \<and> navigating (step (Fire i) (run es (monitorTask tid vid bar st)))
            = (if snd (pending (run es (monitorTask tid vid bar st)) ! i) = CloseCompleted
               then 1 else 0))
   \<and> (i < length (pending (run es (monitorTask tid vid bar st)))
        \<and> snd (pending (run es (monitorTask tid vid bar st)) ! i) = NavigateDetail \<longrightarrow>
        navigated (step (Fire i) (run es (monitorTask tid vid bar st))) = 1
        \<and> navigating (step (Fire i) (run es (monitorTask tid vid bar st))) = 0
        \<and> calls (step (Fire i) (run es (monitorTask tid vid bar st)))
            = calls (run es (monitorTask tid vid bar st))
              @ [Navigate (''transcription/'' @ vid)])
   \<and> (closing (run es (monitorTask tid vid bar st))
         + notified (run es (monitorTask tid vid bar st)) = 1 \<longrightarrow>
        closing (run es' (run es (monitorTask tid vid bar st)))
         + notified (run es' (run es (monitorTask tid vid bar st))) = 1
        \<and> armed (run es' (run es (monitorTask tid vid bar st))) = 0
        \<and> requests (run es' (run es (monitorTask tid vid bar st)))
            = requests (run es (monitorTask tid vid bar st))
        \<and> step (Poll r) (run es' (run es (monitorTask tid vid bar st)))
            = run es' (run es (monitorTask tid vid bar st)))"
proof -
  let ?w = "run es (monitorTask tid vid bar st)"
  have sum: "armed ?w + closing ?w + notified ?w \<le> 1"
    using run_budget[of es "monitorTask tid vid bar st"] by (simp add: monitorTask_counts)
  have "navigating (monitorTask tid vid bar st) + navigated (monitorTask tid vid bar st)
      \<le> notified (monitorTask tid vid bar st)"
    by (simp add: monitorTask_def navigating_def navigated_def)
  then have nav: "navigating ?w + navigated ?w \<le> notified ?w"
    by (rule run_navigation)
  have vid: "videoId ?w = vid"
    by (simp add: videoId_run monitorTask_def)
  have ends: "armed (step (Poll r) ?w) = 0
      \<and> closing (step (Poll r) ?w) + notified (step (Poll r) ?w) = 1"
    if a: "armed ?w = 1" and t: "terminal r ?w"
  proof -
    obtain ts where ts: "take_check (pending ?w) = Some ts"
      using a take_check_None[of "pending ?w"]
      by (cases "take_check (pending ?w)") (auto simp: armed_def)
    let ?v = "?w\<lparr>pending := ts\<rparr>"
    have v: "armed ?v = 0" "closing ?v = 0" "notified ?v = 0"
      using step_Poll_armed(1,2,3)[OF ts] a sum by simp_all
    have "terminal r ?v"
      using t by (simp add: terminal_pending)
    then show ?thesis
      using checkStatus_terminal[of r ?v] v step_Poll_enabled[OF ts, of r] by simp
  qed
  have shown: "notified (step (Fire i) ?w) = 1 \<and> closing (step (Fire i) ?w) = 0
      \<and> navigating (step (Fire i) ?w)
          = (if snd (pending ?w ! i) = CloseCompleted then 1 else 0)"
    if i: "i < length (pending ?w)" and c: "is_close (snd (pending ?w ! i))"
  proof -
    let ?c = "snd (pending ?w ! i)"
    let ?v = "?w\<lparr>pending := take i (pending ?w) @ drop (Suc i) (pending ?w)\<rparr>"
    have nc: "?c \<noteq> CheckStatus" "?c \<noteq> NavigateDetail"
      using c by auto
    have s: "step (Fire i) ?w = fire ?c ?v"
      using i nc by (simp add: step_def)
    have cl: "closing ?v + 1 = closing ?w"
      using i c filter_without_nth[of i "pending ?w" "\<lambda>t. is_close (snd t)"]
      by (simp add: closing_def)
    then have c1: "closing ?v = 0" and n0: "notified ?w = 0"
      using sum by simp_all
    have g: "navigating ?v = navigating ?w"
      using i nc filter_without_nth[of i "pending ?w" "\<lambda>t. snd t = NavigateDetail"]
      by (simp add: navigating_def)
    have "navigating ?w = 0"
      using nav n0 by simp
    then show ?thesis
      using s c c1 n0 g nc fire_effect(2,3)[of ?c ?v] fire_navigation(1)[of ?c ?v]
      by (simp add: notified_def)
  qed
  have gone: "navigated (step (Fire i) ?w) = 1 \<and> navigating (step (Fire i) ?w) = 0
      \<and> calls (step (Fire i) ?w) = calls ?w @ [Navigate (''transcription/'' @ vid)]"
    if i: "i < length (pending ?w)" and c: "snd (pending ?w ! i) = NavigateDetail"
  proof -
    let ?v = "?w\<lparr>pending := take i (pending ?w) @ drop (Suc i) (pending ?w)\<rparr>"
    have s: "step (Fire i) ?w = fire NavigateDetail ?v"
      using i c by (simp add: step_def)
    have g: "navigating ?v + 1 = navigating ?w"
      using i c filter_without_nth[of i "pending ?w" "\<lambda>t. snd t = NavigateDetail"]
      by (simp add: navigating_def)
    have "notified ?w \<le> 1"
      using sum by simp
    then have z: "navigating ?v = 0" "navigated ?w = 0"
      using nav g by simp_all
    have "navigated ?v = navigated ?w" "calls ?v = calls ?w" "videoId ?v = vid"
      using vid by (simp_all add: navigated_def)
    then show ?thesis
      using s z fire_navigation[of NavigateDetail ?v] by simp
  qed
  have after: "closing (run es' ?w) + notified (run es' ?w) = 1 \<and> armed (run es' ?w) = 0
      \<and> requests (run es' ?w) = requests ?w \<and> step (Poll r) (run es' ?w) = run es' ?w"
    if one: "closing ?w + notified ?w = 1"
  proof -
    have a: "armed ?w = 0"
      using sum one by simp
    note d = run_disarmed[OF a, of es']
    have "armed (run (es @ es') (monitorTask tid vid bar st))
        + closing (run (es @ es') (monitorTask tid vid bar st))
        + notified (run (es @ es') (monitorTask tid vid bar st)) \<le> 1"
      using run_budget[of "es @ es'" "monitorTask tid vid bar st"]
      by (simp add: monitorTask_counts)
    then have "closing (run es' ?w) + notified (run es' ?w) \<le> 1"
      by (simp add: run_append)
    then have k: "closing (run es' ?w) + notified (run es' ?w) = 1"
      using one run_outcome_kept[of ?w es'] by simp
    have "step (Poll r) (run es' ?w) = run es' ?w"
      using d by (intro step_Poll_idle) simp
    then show ?thesis
      using k d by simp
  qed
  show ?thesis
    using sum nav ends shown gone after by blast
qed


theorem outcome_exactly_once_witness:
  "armed fresh_monitor = 1
   \<and> terminal (Response completed_report) fresh_monitor
   \<and> armed (step (Poll (Response completed_report)) fresh_monitor) = 0
   \<and> closing (step (Poll (Response completed_report)) fresh_monitor)
       + notified (step (Poll (Response completed_report)) fresh_monitor) = 1
   \<and> pending (run [Poll (Response completed_report)] fresh_monitor) = [(1500, CloseCompleted)]
   \<and> notified (step (Fire 0) (run [Poll (Response completed_report)] fresh_monitor)) = 1
   \<and> navigating (step (Fire 0) (run [Poll (Response completed_report)] fresh_monitor)) = 1
   \<and> pending (run [Poll (Response completed_report), Fire 0] fresh_monitor)
       = [(1000, NavigateDetail)]
   \<and> navigated (step (Fire 0) (run [Poll (Response completed_report), Fire 0] fresh_monitor))
       = 1
   \<and> calls (step (Fire 0) (run [Poll (Response completed_report), Fire 0] fresh_monitor))
       = [StatusRequest ''task-1'', HideTaskModal,
          ShowNotification txt_completed_title txt_completed_message ''success'',
          Navigate ''transcription/BV1'']
   \<and> step (Poll (Response completed_report))
        (run [Fire 0] (run [Poll (Response completed_report), Fire 0] fresh_monitor))
       = run [Fire 0] (run [Poll (Response completed_report), Fire 0] fresh_monitor)"
proof -
  have f: "fresh_monitor
      = monitorTask ''task-1'' ''BV1'' (Some (Percent 5)) (Some (Literal txt_downloading))"
    by (simp add: fresh_monitor_def)
  have a: "armed fresh_monitor = 1"
    by (simp add: fresh_monitor_def monitorTask_counts)
  have t: "terminal (Response completed_report) fresh_monitor"
    by (simp add: terminal_def completed_report_def fresh_monitor_def monitorTask_def)
  have w1: "pending (run [Poll (Response completed_report)] fresh_monitor)
        = [(1500, CloseCompleted)]
      \<and> calls (run [Poll (Response completed_report)] fresh_monitor)
        = [StatusRequest ''task-1'']"
    by (simp add: run_def step_def fresh_monitor_def monitorTask_def completed_report_def
        checkStatus_def onResponse_def onCompleted_def setTextContent_def setTimeout_def
        record_call_def fields Let_def)
  have w2: "pending (run [Poll (Response completed_report), Fire 0] fresh_monitor)
        = [(1000, NavigateDetail)]
      \<and> calls (run [Poll (Response completed_report), Fire 0] fresh_monitor)
        = [StatusRequest ''task-1'', HideTaskModal,
           ShowNotification txt_completed_title txt_completed_message ''success'']"
    by (simp add: run_def step_def fresh_monitor_def monitorTask_def completed_report_def
        checkStatus_def onResponse_def onCompleted_def setTextContent_def setTimeout_def
        record_call_def fire_def fields Let_def)
  have k: "closing (run [Poll (Response completed_report), Fire 0] fresh_monitor)
      + notified (run [Poll (Response completed_report), Fire 0] fresh_monitor) = 1"
    using w2 by (simp add: closing_def notified_def)
  note 0 = outcome_exactly_once[of "[]" "''task-1''" "''BV1''" "Some (Percent 5)"
      "Some (Literal txt_downloading)" "Response completed_report" 0 "[]", folded f]
  note 1 = outcome_exactly_once[of "[Poll (Response completed_report)]" "''task-1''" "''BV1''"
      "Some (Percent 5)" "Some (Literal txt_downloading)" "Response completed_report" 0 "[]",
      folded f]
  note 2 = outcome_exactly_once[of "[Poll (Response completed_report), Fire 0]" "''task-1''"
      "''BV1''" "Some (Percent 5)" "Some (Literal txt_downloading)"
      "Response completed_report" 0 "[Fire 0]", folded f]
  have s0: "armed (step (Poll (Response completed_report)) fresh_monitor) = 0
      \<and> closing (step (Poll (Response completed_report)) fresh_monitor)
       + notified (step (Poll (Response completed_report)) fresh_monitor) = 1"
    using 0 a t by (simp add: run_Nil)
  have s1: "notified (step (Fire 0) (run [Poll (Response completed_report)] fresh_monitor)) = 1
      \<and> navigating (step (Fire 0) (run [Poll (Response completed_report)] fresh_monitor)) = 1"
    using 1 w1 by simp
  have s2: "navigated (step (Fire 0)
        (run [Poll (Response completed_report), Fire 0] fresh_monitor)) = 1
      \<and> calls (step (Fire 0) (run [Poll (Response completed_report), Fire 0] fresh_monitor))
       = [StatusRequest ''task-1'', HideTaskModal,
          ShowNotification txt_completed_title txt_completed_message ''success'',
          Navigate ''transcription/BV1'']"
    using 2 w2 by simp
  have s3: "step (Poll (Response completed_report))
        (run [Fire 0] (run [Poll (Response completed_report), Fire 0] fresh_monitor))
       = run [Fire 0] (run [Poll (Response completed_report), Fire 0] fresh_monitor)"
    using 2 k by blast
  show ?thesis
    using a t s0 w1 s1 w2 s2 s3 by blast
qed

subsection \<open>C4: a response with success false\<close>

text \<open>
  C4, as the code has it. For every response with \<^verbatim>\<open>success: false\<close>, the call arms no
  next poll and shows nothing at once: besides issuing its request it only sets one timer
  of 1000 ms and leaves every variable of the monitor as it was. When that timer fires,
  the modal is hidden and one error notification is shown, whose reason is the error
  message of the response when it has one that is not empty, and the generic message
  when the field is absent or the empty string.
\<close>

theorem api_error_report:
  assumes "\<not> success d"
  shows "checkStatus (Response d) w =
           w\<lparr>pending := pending w @ [(1000, CloseApiError (error d))],
             calls := calls w @ [StatusRequest (taskId w)]\<rparr>
    \<and> calls (fire (CloseApiError (error d)) w') =
          calls w' @ [HideTaskModal,
                      ShowNotification txt_api_error_title
                        (case error d of
                           None \<Rightarrow> txt_api_error_fallback
                         | Some [] \<Rightarrow> txt_api_error_fallback
                         | Some (c # cs) \<Rightarrow> c # cs)
                        ''error'']
    \<and> pending (fire (CloseApiError (error d)) w') = pending w'"
proof -
  have "onResponse d w0 = Inr (setTimeout (CloseApiError (error d)) 1000 w0)" for w0
    using assms by (simp add: onResponse_def)
  then have 1: "checkStatus (Response d) w =
      w\<lparr>pending := pending w @ [(1000, CloseApiError (error d))],
        calls := calls w @ [StatusRequest (taskId w)]\<rparr>"
    by (simp add: checkStatus_def Let_def setTimeout_def record_call_def)
  have 2: "errorReason (error d) =
      (case error d of None \<Rightarrow> txt_api_error_fallback | Some [] \<Rightarrow> txt_api_error_fallback
       | Some (c # cs) \<Rightarrow> c # cs)"
    by (simp add: errorReason_def split: option.splits list.splits)
  show ?thesis
    using 1 2 by (simp add: fire_def record_call_def)
qed

theorem api_error_report_witness:
  "\<not> success rejected_report
   \<and> checkStatus (Response rejected_report)
        (fresh_monitor\<lparr>pending := []\<rparr>) =
       fresh_monitor\<lparr>pending := [(1000, CloseApiError (Some []))],
                     calls := [StatusRequest ''task-1'']\<rparr>"
proof -
  have h: "\<not> success rejected_report"
    by (simp add: rejected_report_def)
  show ?thesis
    using h api_error_report[OF h, of "fresh_monitor\<lparr>pending := []\<rparr>" fresh_monitor]
    by (simp add: fresh_monitor_def monitorTask_def rejected_report_def)
qed

text \<open>
  C4 as stated fails at \<^verbatim>\<open>{"success": false, "error": ""}\<close> on a fresh monitor: after the
  poll no notification has been shown, the report waits in a timer of 1000 ms, and when
  that timer fires the reason shown is the generic message, not the (empty) error
  message of the response.
\<close>

theorem api_error_immediate_counterexample:
  "notified (step (Poll (Response rejected_report)) fresh_monitor) = 0
   \<and> pending (step (Poll (Response rejected_report)) fresh_monitor)
       = [(1000, CloseApiError (Some []))]
   \<and> calls (step (Fire 0) (step (Poll (Response rejected_report)) fresh_monitor))
       = [StatusRequest ''task-1'', HideTaskModal,
          ShowNotification txt_api_error_title txt_api_error_fallback ''error'']
   \<and> txt_api_error_fallback \<noteq> []"
  by (simp add: step_def fresh_monitor_def monitorTask_def rejected_report_def checkStatus_def
      onResponse_def setTimeout_def record_call_def Let_def notified_def fire_def
      errorReason_def txt_api_error_fallback_def)

subsection \<open>C5: five transport failures in a row\<close>

text \<open>
  C5, as the code has it. Start the monitor and let the first \<open>n\<close> status requests fail,
  for any \<open>n\<close> up to five. No notification has been shown, \<open>n\<close> requests were issued, and
  a retry is armed 3000 ms ahead: after the fifth failure a sixth request is still to
  come. Only when that sixth request fails too is the modal hidden and the connection
  error shown; then no retry is armed, and whatever the host does afterwards no further
  request is issued.
\<close>

theorem five_failures_rearm:
  "(n \<le> 5 \<longrightarrow>
      notified (run (replicate n (Poll TransportFailure)) (monitorTask tid vid bar st)) = 0
      \<and> requests (run (replicate n (Poll TransportFailure)) (monitorTask tid vid bar st)) = n
      \<and> pending (run (replicate n (Poll TransportFailure)) (monitorTask tid vid bar st))
          = [(if n = 0 then 0 else 3000, CheckStatus)])
   \<and> pending (run (replicate 6 (Poll TransportFailure)) (monitorTask tid vid bar st)) = []
   \<and> calls (run (replicate 6 (Poll TransportFailure)) (monitorTask tid vid bar st))
       = calls (run (replicate 5 (Poll TransportFailure)) (monitorTask tid vid bar st))
         @ [StatusRequest tid, ConsoleError, ConsoleError, HideTaskModal,
            ShowNotification txt_connection_title txt_connection_message ''error'']
   \<and> requests (run es (run (replicate 6 (Poll TransportFailure)) (monitorTask tid vid bar st)))
       = 6"
proof -
  let ?w6 = "run (replicate 6 (Poll TransportFailure)) (monitorTask tid vid bar st)"
  note six = six_failures[of tid vid bar st]
  have "armed ?w6 = 0"
    by (simp add: armed_def six(1))
  then have r6: "requests (run es ?w6) = 6"
    using run_disarmed[of ?w6 es] six(4) by simp
  show ?thesis
    using failure_run[of n tid vid bar st] six(1,2) r6 by blast
qed

theorem five_failures_rearm_witness:
  "(5::nat) \<le> 5
   \<and> notified (run (replicate 5 (Poll TransportFailure)) fresh_monitor) = 0
   \<and> requests (run (replicate 5 (Poll TransportFailure)) fresh_monitor) = 5
   \<and> pending (run (replicate 5 (Poll TransportFailure)) fresh_monitor) = [(3000, CheckStatus)]
   \<and> pending (run (replicate 6 (Poll TransportFailure)) fresh_monitor) = []"
  using five_failures_rearm[of 5 "''task-1''" "''BV1''" "Some (Percent 5)"
      "Some (Literal txt_downloading)" "[]"]
  by (simp add: fresh_monitor_def)

text \<open>
  C5 as stated fails on a fresh monitor: after five transport failures in a row nothing
  has been shown to the user and the sixth request is armed, 3000 ms ahead.
\<close>

theorem five_failures_counterexample:
  "notified (run (replicate 5 (Poll TransportFailure)) fresh_monitor) = 0
   \<and> armed (run (replicate 5 (Poll TransportFailure)) fresh_monitor) = 1
   \<and> pending (run (replicate 5 (Poll TransportFailure)) fresh_monitor) = [(3000, CheckStatus)]"
  using failure_run[of 5 "''task-1''" "''BV1''" "Some (Percent 5)"
      "Some (Literal txt_downloading)"]
  by (simp add: fresh_monitor_def armed_def)

subsection \<open>C6: one step of the animation\<close>

text \<open>
  C6, as the code has it. For every call of the stepping function on a page that has the
  bar, with current width \<open>c\<close> and target width \<open>t\<close>, all arithmetic in doubles: if
  \<open>|t - c| < 0.5\<close> the width becomes \<open>t\<close> and nothing else changes (no frame is
  requested); otherwise the width becomes \<open>c + (t - c) * 0.1\<close>, and another frame is
  requested only when that new width is still more than 0.5 away from the target. For a
  bar between 5 and 100 percent the frame is requested whenever the exact distance of
  \<open>t\<close> and \<open>c\<close> is at least 0.56, and is not requested when that distance is at most
  0.55: there the bar moves once and stops short of the target.
\<close>

theorem animate_step:
  assumes "task_progress w = Some cw"
  shows "(\<bar>fsub (targetWidth p) (currentWidth cw)\<bar> < 0.5 \<longrightarrow>
            animateProgress p w = w\<lparr>task_progress := Some (Percent (targetWidth p))\<rparr>)
    \<and> (\<not> \<bar>fsub (targetWidth p) (currentWidth cw)\<bar> < 0.5 \<longrightarrow>
          task_progress (animateProgress p w) =
            Some (Percent (fadd (currentWidth cw)
              (fmul (fsub (targetWidth p) (currentWidth cw)) (rnd 0.1))))
          \<and> frames (animateProgress p w) =
              (if \<bar>fsub (fadd (currentWidth cw)
                         (fmul (fsub (targetWidth p) (currentWidth cw)) (rnd 0.1)))
                       (targetWidth p)\<bar> > 0.5
               then frames w @ [(next_frame w, p)] else frames w)
          \<and> animationFrame (animateProgress p w) =
              (if \<bar>fsub (fadd (currentWidth cw)
                         (fmul (fsub (targetWidth p) (currentWidth cw)) (rnd 0.1)))
                       (targetWidth p)\<bar> > 0.5
               then Some (next_frame w) else animationFrame w))
    \<and> (5 \<le> currentWidth cw \<and> currentWidth cw \<le> 100
          \<and> 0.56 \<le> \<bar>targetWidth p - currentWidth cw\<bar> \<longrightarrow>
          frames (animateProgress p w) = frames w @ [(next_frame w, p)])
    \<and> (5 \<le> currentWidth cw \<and> currentWidth cw \<le> 100
          \<and> \<not> \<bar>fsub (targetWidth p) (currentWidth cw)\<bar> < 0.5
          \<and> \<bar>targetWidth p - currentWidth cw\<bar> \<le> 0.55 \<longrightarrow>
          frames (animateProgress p w) = frames w
          \<and> task_progress (animateProgress p w) \<noteq> Some (Percent (targetWidth p)))"
proof -
  let ?c = "currentWidth cw" and ?t = "targetWidth p"
  let ?n = "fadd ?c (fmul (fsub ?t ?c) (rnd 0.1))"
  have snap: "animateProgress p w = w\<lparr>task_progress := Some (Percent ?t)\<rparr>"
    if "\<bar>fsub ?t ?c\<bar> < 0.5"
    using assms that by (simp add: animateProgress_def Let_def)
  have move: "task_progress (animateProgress p w) = Some (Percent ?n)
      \<and> frames (animateProgress p w) =
          (if \<bar>fsub ?n ?t\<bar> > 0.5 then frames w @ [(next_frame w, p)] else frames w)
      \<and> animationFrame (animateProgress p w) =
          (if \<bar>fsub ?n ?t\<bar> > 0.5 then Some (next_frame w) else animationFrame w)"
    if "\<not> \<bar>fsub ?t ?c\<bar> < 0.5"
    using assms that by (simp add: animateProgress_def Let_def requestAnimationFrame_def)
  note t = targetWidth_bounds[of p]
  have far: "frames (animateProgress p w) = frames w @ [(next_frame w, p)]"
    if "5 \<le> ?c" "?c \<le> 100" "0.56 \<le> \<bar>?t - ?c\<bar>"
    using move animate_second_test(1,2)[OF that(1,2) t that(3)] by simp
  have near: "frames (animateProgress p w) = frames w
      \<and> task_progress (animateProgress p w) \<noteq> Some (Percent ?t)"
    if "5 \<le> ?c" "?c \<le> 100" "\<not> \<bar>fsub ?t ?c\<bar> < 0.5" "\<bar>?t - ?c\<bar> \<le> 0.55"
    using move that(3) animate_second_test(3)[OF that(1,2) t _ that(4)]
      animate_second_test(4)[OF that(1,2) t] by simp
  show ?thesis
    using snap move far near by blast
qed

theorem animate_step_witness:
  "task_progress fresh_monitor = Some (Percent 5)
   \<and> \<not> \<bar>fsub (targetWidth 0.25) (currentWidth (Percent 5))\<bar> < 0.5
   \<and> 0.56 \<le> \<bar>targetWidth 0.25 - currentWidth (Percent 5)\<bar>
   \<and> task_progress (animateProgress 0.25 fresh_monitor) = Some (Percent 7)
   \<and> frames (animateProgress 0.25 fresh_monitor) = [(1, 0.25)]
   \<and> task_progress (fresh_monitor\<lparr>task_progress := Some (Percent 56.5)\<rparr>)
       = Some (Percent 56.5)
   \<and> \<bar>fsub (targetWidth (5134103575202365 / 9007199254740992))
          (currentWidth (Percent 56.5))\<bar> < 0.5
   \<and> animateProgress (5134103575202365 / 9007199254740992)
        (fresh_monitor\<lparr>task_progress := Some (Percent 56.5)\<rparr>)
       = fresh_monitor\<lparr>task_progress :=
           Some (Percent (8022036836253695 / 140737488355328))\<rparr>"
proof -
  have h: "task_progress fresh_monitor = Some (Percent 5)"
    by (simp add: fresh_monitor_def monitorTask_def)
  have t: "targetWidth (1 / 4) = 25"
    using rnd_eval[of "1 / 4 * 100" 48 7036874417766400] by (simp add: targetWidth_def fmul_def)
  have d: "fsub 25 5 = 20"
    using rnd_eval[of "25 - 5" 48 5629499534213120] by (simp add: fsub_def)
  have m: "fmul 20 (rnd 0.1) = 2"
    using rnd_eval[of "20 * (3602879701896397 / 36028797018963968)" 51 4503599627370496]
    by (simp add: fmul_def rnd_tenth)
  have n: "fadd 5 2 = 7"
    using rnd_eval[of "5 + 2" 50 7881299347898368] by (simp add: fadd_def)
  have e: "fsub 7 25 = - 18"
    using rnd_eval[of "7 - 25" 48 "- 5066549580791808"] by (simp add: fsub_def)
  have h': "task_progress (fresh_monitor\<lparr>task_progress := Some (Percent (113 / 2))\<rparr>)
      = Some (Percent (113 / 2))"
    by simp
  have t': "targetWidth (5134103575202365 / 9007199254740992)
      = 8022036836253695 / 140737488355328"
    using rnd_eval[of "5134103575202365 / 9007199254740992 * 100" 47 8022036836253695]
    by (simp add: targetWidth_def fmul_def)
  have d': "fsub (8022036836253695 / 140737488355328) (113 / 2)
      = 70368744177663 / 140737488355328"
    using rnd_eval[of "8022036836253695 / 140737488355328 - 113 / 2" 54 9007199254740864]
    by (simp add: fsub_def)
  have 1: "task_progress (animateProgress (1 / 4) fresh_monitor) = Some (Percent 7)
      \<and> frames (animateProgress (1 / 4) fresh_monitor) = [(1, 1 / 4)]"
    using animate_step[OF h, of "1 / 4"]
    by (simp add: currentWidth_Percent t d m n e fresh_monitor_def monitorTask_def)
  have 2: "animateProgress (5134103575202365 / 9007199254740992)
        (fresh_monitor\<lparr>task_progress := Some (Percent (113 / 2))\<rparr>)
       = fresh_monitor\<lparr>task_progress :=
           Some (Percent (8022036836253695 / 140737488355328))\<rparr>"
    using animate_step[OF h', of "5134103575202365 / 9007199254740992"]
    by (simp add: currentWidth_Percent t' d')
  show ?thesis
    using h 1 2 by (simp add: currentWidth_Percent t d t' d')
qed

text \<open>
  C6 as stated fails for a bar at 5 percent and a reported progress of 113/2048, which is
  a double (about 0.0552; target 2825/512, about 5.52 percent): the difference 265/512
  is not below 0.5, the width becomes 5173/1024, about 5.05, and no further frame is
  requested.
\<close>

theorem animate_reschedule_counterexample:
  "\<not> \<bar>fsub (targetWidth (113 / 2048)) (currentWidth (Percent 5))\<bar> < 0.5
   \<and> task_progress (animateProgress (113 / 2048) fresh_monitor) = Some (Percent (5173 / 1024))
   \<and> frames (animateProgress (113 / 2048) fresh_monitor) = []"
proof -
  have h: "task_progress fresh_monitor = Some (Percent 5)"
    by (simp add: fresh_monitor_def monitorTask_def)
  have t: "targetWidth (113 / 2048) = 2825 / 512"
    using rnd_eval[of "113 / 2048 * 100" 50 6212240696934400]
    by (simp add: targetWidth_def fmul_def)
  have d: "fsub (2825 / 512) 5 = 265 / 512"
    using rnd_eval[of "2825 / 512 - 5" 53 4661929301770240]
    by (simp add: fsub_def)
  have m: "fmul (265 / 512) (rnd 0.1) = 53 / 1024"
    using rnd_eval[of "265 / 512 * (3602879701896397 / 36028797018963968)" 57 7459086882832384]
    by (simp add: fmul_def rnd_tenth)
  have n: "fadd 5 (53 / 1024) = 5173 / 1024"
    using rnd_eval[of "5 + 53 / 1024" 50 5687773650485248]
    by (simp add: fadd_def)
  have d': "fsub (5173 / 1024) (2825 / 512) = - (477 / 1024)"
    using rnd_eval[of "5173 / 1024 - 2825 / 512" 54 "- 8391472743186432"]
    by (simp add: fsub_def)
  have far: "\<not> \<bar>265 / 512 :: real\<bar> < 1 / 2"
    by simp
  have r: "animateProgress (113 / 2048) fresh_monitor
      = fresh_monitor\<lparr>task_progress := Some (Percent (5173 / 1024))\<rparr>"
    using animateProgress_move[OF h currentWidth_Percent t d far m n d'] by simp
  show ?thesis
    unfolding r by (simp add: currentWidth_Percent t d fresh_monitor_def monitorTask_def)
qed

subsection \<open>C7: the displayed percentage stays between 5 and 100\<close>

text \<open>
  C7. Start the monitor on a page whose bar stands at the 5 percent floor, and let the
  host deliver any sequence of poll results, timers and animation frames, with any
  reported progress values. Whenever the bar is there, the width read from it is at
  least 5 and at most 100. The sequence is arbitrary, so this holds after every single
  write of the animator.
\<close>

theorem displayed_percent_bounds:
  assumes "task_progress (run es (monitorTask tid vid (Some (Percent 5)) st)) = Some cw"
  shows "5 \<le> currentWidth cw \<and> currentWidth cw \<le> 100"
proof -
  have "width_ok (monitorTask tid vid (Some (Percent 5)) st)"
    by (simp add: width_ok_def monitorTask_def currentWidth_def)
  then have "width_ok (run es (monitorTask tid vid (Some (Percent 5)) st))"
    by (rule run_width_ok)
  then show ?thesis
    using assms by (simp add: width_ok_def)
qed

theorem displayed_percent_bounds_witness:
  "task_progress (run [Poll (Response (processing_report (1 / 4))), Frame 1]
      (monitorTask ''task-1'' ''BV1'' (Some (Percent 5)) (Some (Literal txt_downloading))))
     = Some (Percent (2476979795053773 / 281474976710656))
   \<and> 5 \<le> currentWidth (Percent (2476979795053773 / 281474976710656))
   \<and> currentWidth (Percent (2476979795053773 / 281474976710656)) \<le> 100"
proof -
  have t: "targetWidth (1 / 4) = 25"
    using rnd_eval[of "1 / 4 * 100" 48 7036874417766400] by (simp add: targetWidth_def fmul_def)
  have d1: "fsub 25 5 = 20"
    using rnd_eval[of "25 - 5" 48 5629499534213120] by (simp add: fsub_def)
  have m1: "fmul 20 (rnd 0.1) = 2"
    using rnd_eval[of "20 * (3602879701896397 / 36028797018963968)" 51 4503599627370496]
    by (simp add: fmul_def rnd_tenth)
  have n1: "fadd 5 2 = 7"
    using rnd_eval[of "5 + 2" 50 7881299347898368] by (simp add: fadd_def)
  have e1: "fsub 7 25 = - 18"
    using rnd_eval[of "7 - 25" 48 "- 5066549580791808"] by (simp add: fsub_def)
  have d2: "fsub 25 7 = 18"
    using rnd_eval[of "25 - 7" 48 5066549580791808] by (simp add: fsub_def)
  have m2: "fmul 18 (rnd 0.1) = 8106479329266893 / 4503599627370496"
    using rnd_eval[of "18 * (3602879701896397 / 36028797018963968)" 52 8106479329266893]
    by (simp add: fmul_def rnd_tenth)
  have n2: "fadd 7 (8106479329266893 / 4503599627370496)
      = 2476979795053773 / 281474976710656"
    using rnd_eval[of "7 + 8106479329266893 / 4503599627370496" 49 4953959590107546]
    by (simp add: fadd_def)
  have e2: "fsub (2476979795053773 / 281474976710656) 25
      = - (4559894622712627 / 281474976710656)"
    using rnd_eval[of "2476979795053773 / 281474976710656 - 25" 48 "- 4559894622712627"]
    by (simp add: fsub_def)
  have first: "animateProgress (1 / 4) w
      = requestAnimationFrame (1 / 4) (w\<lparr>task_progress := Some (Percent 7)\<rparr>)"
    if "task_progress w = Some (Percent 5)" for w
    using animateProgress_move[OF that currentWidth_Percent t d1 _ m1 n1 e1] by simp
  have second: "animateProgress (1 / 4) w
      = requestAnimationFrame (1 / 4)
          (w\<lparr>task_progress := Some (Percent (2476979795053773 / 281474976710656))\<rparr>)"
    if "task_progress w = Some (Percent 7)" for w
    using animateProgress_move[OF that currentWidth_Percent t d2 _ m2 n2 e2] by simp
  have h: "task_progress (run [Poll (Response (processing_report (1 / 4))), Frame 1]
      (monitorTask ''task-1'' ''BV1'' (Some (Percent 5)) (Some (Literal txt_downloading))))
     = Some (Percent (2476979795053773 / 281474976710656))"
    by (simp add: run_def step_def monitorTask_def processing_report_def checkStatus_def
        onResponse_def onProcessing_def updateProgressBar_def first second
        requestAnimationFrame_def setTextContent_def adjustInterval_def setTimeout_def
        record_call_def reportedProgress_def reportedStage_def Let_def)
  show ?thesis
    using h displayed_percent_bounds[OF h] by simp
qed

subsection \<open>C8: when the target moves\<close>

text \<open>
  C8. For every processing report with fractional progress \<open>p\<close> and every state with
  previous target \<open>lastProgress\<close>: if \<open>p\<close> is greater than the previous target or
  \<open>p \<ge> 0.99\<close> (the double nearest to 0.99), the target becomes \<open>p\<close>, so the target
  width becomes \<open>clamp (p * 100) 5 100\<close> with the product rounded to a double, and the
  bar makes its first step towards it; otherwise the
  target, the bar, the requested frames and the frame handle are all unchanged. In
  particular a report whose target width is lower than the current one, with
  \<open>p < 0.99\<close>, changes nothing.
\<close>

theorem target_update:
  assumes "success d" and "status d = Some ''processing''"
  shows "(reportedProgress d > lastProgress w \<or> reportedProgress d \<ge> rnd 0.99 \<longrightarrow>
            lastProgress (checkStatus (Response d) w) = reportedProgress d
            \<and> targetWidth (lastProgress (checkStatus (Response d) w))
                = max 5 (min 100 (fmul (reportedProgress d) 100))
            \<and> task_progress (checkStatus (Response d) w)
                = task_progress (animateProgress (reportedProgress d) w))
    \<and> (\<not> (reportedProgress d > lastProgress w \<or> reportedProgress d \<ge> rnd 0.99) \<longrightarrow>
            lastProgress (checkStatus (Response d) w) = lastProgress w
            \<and> task_progress (checkStatus (Response d) w) = task_progress w
            \<and> frames (checkStatus (Response d) w) = frames w
            \<and> animationFrame (checkStatus (Response d) w) = animationFrame w)
    \<and> (targetWidth (reportedProgress d) < targetWidth (lastProgress w)
          \<and> reportedProgress d < rnd 0.99 \<longrightarrow>
            lastProgress (checkStatus (Response d) w) = lastProgress w
            \<and> task_progress (checkStatus (Response d) w) = task_progress w
            \<and> frames (checkStatus (Response d) w) = frames w
            \<and> animationFrame (checkStatus (Response d) w) = animationFrame w)"
proof -
  let ?p = "reportedProgress d"
  note bar = checkStatus_processing_bar[OF assms, of w]
  have lower: "\<not> (?p > lastProgress w \<or> ?p \<ge> rnd 0.99)"
    if "targetWidth ?p < targetWidth (lastProgress w)" and "?p < rnd 0.99"
    using that targetWidth_mono[of "lastProgress w" ?p] by auto
  have up: "lastProgress (updateProgressBar ?p w) = ?p
      \<and> task_progress (updateProgressBar ?p w) = task_progress (animateProgress ?p w)"
    if "?p > lastProgress w \<or> ?p \<ge> rnd 0.99"
    using that
    by (simp add: updateProgressBar_def Let_def animateProgress_def requestAnimationFrame_def
        cancelAnimationFrame_def split: option.splits)
  have keep: "updateProgressBar ?p w = w"
    if "\<not> (?p > lastProgress w \<or> ?p \<ge> rnd 0.99)"
    using that by (simp add: updateProgressBar_def)
  have moved: "lastProgress (checkStatus (Response d) w) = ?p
      \<and> targetWidth (lastProgress (checkStatus (Response d) w)) = max 5 (min 100 (fmul ?p 100))
      \<and> task_progress (checkStatus (Response d) w) = task_progress (animateProgress ?p w)"
    if "?p > lastProgress w \<or> ?p \<ge> rnd 0.99"
    using bar(1,2) up[OF that] by (simp add: targetWidth_def)
  have kept: "lastProgress (checkStatus (Response d) w) = lastProgress w
      \<and> task_progress (checkStatus (Response d) w) = task_progress w
      \<and> frames (checkStatus (Response d) w) = frames w
      \<and> animationFrame (checkStatus (Response d) w) = animationFrame w"
    if "\<not> (?p > lastProgress w \<or> ?p \<ge> rnd 0.99)"
    using bar keep[OF that] by simp
  show ?thesis
    using moved kept lower by blast
qed

theorem target_update_witness:
  "success (processing_report (1 / 4))
   \<and> status (processing_report (1 / 4)) = Some ''processing''
   \<and> \<not> (reportedProgress (processing_report (1 / 4))
           > lastProgress (fresh_monitor\<lparr>lastProgress := 5 / 8\<rparr>)
         \<or> reportedProgress (processing_report (1 / 4)) \<ge> rnd 0.99)
   \<and> targetWidth (reportedProgress (processing_report (1 / 4)))
        < targetWidth (lastProgress (fresh_monitor\<lparr>lastProgress := 5 / 8\<rparr>))
   \<and> lastProgress (checkStatus (Response (processing_report (1 / 4)))
        (fresh_monitor\<lparr>lastProgress := 5 / 8\<rparr>)) = 5 / 8
   \<and> reportedProgress (processing_report (3 / 4))
        > lastProgress (fresh_monitor\<lparr>lastProgress := 5 / 8\<rparr>)
   \<and> lastProgress (checkStatus (Response (processing_report (3 / 4)))
        (fresh_monitor\<lparr>lastProgress := 5 / 8\<rparr>)) = 3 / 4
   \<and> targetWidth (lastProgress (checkStatus (Response (processing_report (3 / 4)))
        (fresh_monitor\<lparr>lastProgress := 5 / 8\<rparr>))) = 75"
proof -
  have h: "success (processing_report p)" "status (processing_report p) = Some ''processing''"
    for p
    by (simp_all add: processing_report_def)
  have p: "reportedProgress (processing_report p) = p" for p
    by (simp add: processing_report_def reportedProgress_def)
  have c: "rnd (99 / 100) = 4458563631096791 / 4503599627370496"
    using rnd_eval[of "99 / 100" 53 8917127262193582] by simp
  have t1: "targetWidth (1 / 4) = 25"
    using rnd_eval[of "1 / 4 * 100" 48 7036874417766400] by (simp add: targetWidth_def fmul_def)
  have t2: "targetWidth (5 / 8) = 125 / 2"
    using rnd_eval[of "5 / 8 * 100" 47 8796093022208000] by (simp add: targetWidth_def fmul_def)
  have t3: "fmul (3 / 4) 100 = 75"
    using rnd_eval[of "3 / 4 * 100" 46 5277655813324800] by (simp add: fmul_def)
  show ?thesis
    using h[of "1 / 4"]
      target_update[OF h[of "1 / 4"], of "fresh_monitor\<lparr>lastProgress := 5 / 8\<rparr>"]
      target_update[OF h[of "3 / 4"], of "fresh_monitor\<lparr>lastProgress := 5 / 8\<rparr>"]
    by (simp add: p c t1 t2 t3)
qed

subsection \<open>C9: one counter for polls and retries\<close>

text \<open>
  C9. The retry limit is checked against \<^verbatim>\<open>checkCount\<close>, the counter of the polls. No
  step of the event loop lowers it; a processing report (on a page with its status line)
  raises it by one, and so does a transport failure below the limit, which also arms a
  retry. In a run of processing reports and transport failures in any mix, as long as a
  poll is armed the counter is the number of polls so far. Once it has reached five, a
  transport failure arms nothing: the modal is hidden and the connection error is shown
  in the same call.
\<close>

theorem shared_counter:
  "checkCount w \<le> checkCount (step e w)
   \<and> (success d \<and> status d = Some ''processing'' \<and> task_status w \<noteq> None \<longrightarrow>
        checkCount (checkStatus (Response d) w) = checkCount w + 1)
   \<and> (checkCount w < 5 \<longrightarrow>
        checkCount (checkStatus TransportFailure w) = checkCount w + 1
        \<and> pending (checkStatus TransportFailure w) = pending w @ [(3000, CheckStatus)])
   \<and> (5 \<le> checkCount w \<longrightarrow>
        checkCount (checkStatus TransportFailure w) = checkCount w
        \<and> pending (checkStatus TransportFailure w) = pending w
        \<and> calls (checkStatus TransportFailure w)
            = calls w @ [StatusRequest (taskId w), ConsoleError, ConsoleError, HideTaskModal,
                ShowNotification txt_connection_title txt_connection_message ''error''])
   \<and> ((\<forall>p \<in> set ps. p = TransportFailure
            \<or> (\<exists>r. p = Response r \<and> success r \<and> status r = Some ''processing''))
        \<and> armed (run (map Poll ps) (monitorTask tid vid bar (Some t))) = 1 \<longrightarrow>
        checkCount (run (map Poll ps) (monitorTask tid vid bar (Some t))) = length ps)"
proof -
  have mono: "checkCount w \<le> checkCount (step e w)"
    by (rule step_checkCount_mono)
  have proc: "checkCount (checkStatus (Response d) w) = checkCount w + 1"
    if s: "success d" and p: "status d = Some ''processing''" and st: "task_status w \<noteq> None"
  proof -
    obtain t' where "task_status w = Some t'" using st by auto
    from checkStatus_processing(2)[OF s p this] show ?thesis .
  qed
  have mixed: "checkCount (run (map Poll ps) (monitorTask tid vid bar (Some t))) = length ps"
    if "\<forall>p \<in> set ps. p = TransportFailure
            \<or> (\<exists>r. p = Response r \<and> success r \<and> status r = Some ''processing'')"
      and "armed (run (map Poll ps) (monitorTask tid vid bar (Some t))) = 1"
    using mixed_run[OF that(1), of tid vid bar t] that(2) by (auto simp: armed_def)
  show ?thesis
    using mono proc mixed by (simp add: checkStatus_failure)
qed

theorem shared_counter_witness:
  "success (processing_report 0.125) \<and> status (processing_report 0.125) = Some ''processing''
   \<and> task_status fresh_monitor \<noteq> None
   \<and> checkCount fresh_monitor < 5
   \<and> checkCount (checkStatus (Response (processing_report 0.125)) fresh_monitor) = 1
   \<and> checkCount (checkStatus TransportFailure fresh_monitor) = 1
   \<and> 5 \<le> checkCount (fresh_monitor\<lparr>checkCount := 7\<rparr>)
   \<and> pending (checkStatus TransportFailure (fresh_monitor\<lparr>checkCount := 7\<rparr>))
       = pending fresh_monitor
   \<and> armed (run (map Poll [Response (processing_report 0.125), TransportFailure]) fresh_monitor)
       = 1
   \<and> checkCount
        (run (map Poll [Response (processing_report 0.125), TransportFailure]) fresh_monitor) = 2"
proof -
  have a: "armed (run (map Poll [Response (processing_report 0.125), TransportFailure])
      fresh_monitor) = 1"
    by (simp add: run_def step_def fresh_monitor_def monitorTask_def processing_report_def
        checkStatus_def onResponse_def onProcessing_def onError_def setTextContent_def
        adjustInterval_def setTimeout_def record_call_def fields armed_def Let_def)
  have f: "fresh_monitor = monitorTask ''task-1'' ''BV1'' (Some (Percent 5))
      (Some (Literal txt_downloading))"
    by (simp add: fresh_monitor_def)
  have c: "checkCount fresh_monitor = 0" "task_status fresh_monitor \<noteq> None"
    by (simp_all add: fresh_monitor_def monitorTask_def)
  have r: "success (processing_report 0.125)" "status (processing_report 0.125) = Some ''processing''"
    by (simp_all add: processing_report_def)
  have 1: "checkCount (checkStatus (Response (processing_report 0.125)) fresh_monitor) = 1"
    "checkCount (checkStatus TransportFailure fresh_monitor) = 1"
    using shared_counter[of fresh_monitor "Poll TransportFailure" "processing_report 0.125" "[]"]
      c r by simp_all
  have 2: "pending (checkStatus TransportFailure (fresh_monitor\<lparr>checkCount := 7\<rparr>))
       = pending fresh_monitor"
    using shared_counter[of "fresh_monitor\<lparr>checkCount := 7\<rparr>" "Poll TransportFailure"
        "processing_report 0.125" "[]"]
    by simp
  have 3: "checkCount
        (run (map Poll [Response (processing_report 0.125), TransportFailure]) fresh_monitor) = 2"
    using shared_counter[of fresh_monitor "Poll TransportFailure" "processing_report 0.125"
        "[Response (processing_report 0.125), TransportFailure]" "''task-1''" "''BV1''"
        "Some (Percent 5)" "Literal txt_downloading"]
      a r
    by (simp add: f[symmetric])
  show ?thesis
    using a c r 1 2 3 by simp
qed

subsection \<open>C10: a status without a branch\<close>

text \<open>
  C10. For every response with \<^verbatim>\<open>success: true\<close> whose status is none of
  \<^verbatim>\<open>processing\<close>, \<^verbatim>\<open>completed\<close>, \<^verbatim>\<open>failed\<close>, the handler does nothing: the body of the
  \<^verbatim>\<open>try\<close> block returns the state as it found it, so the whole call only issued its
  request. In a monitor with its one poll armed and no report scheduled, this poll is the
  last: whatever the host does afterwards, no poll is armed, no report is scheduled, no
  notification is shown and no request is issued.
\<close>

theorem unknown_status_stops_polling:
  assumes "success d"
    and "status d \<noteq> Some ''processing''"
    and "status d \<noteq> Some ''completed''"
    and "status d \<noteq> Some ''failed''"
  shows "onResponse d w = Inr w
    \<and> checkStatus (Response d) w = record_call (StatusRequest (taskId w)) w
    \<and> (armed w = 1 \<and> closing w = 0 \<longrightarrow>
         (\<forall>es. armed (run es (step (Poll (Response d)) w)) = 0
             \<and> closing (run es (step (Poll (Response d)) w)) = 0
             \<and> notified (run es (step (Poll (Response d)) w)) = notified w
             \<and> requests (run es (step (Poll (Response d)) w)) = requests w + 1))"
proof -
  have body: "onResponse d w' = Inr w'" for w'
    using assms by (simp add: onResponse_def)
  have call: "checkStatus (Response d) w' = record_call (StatusRequest (taskId w')) w'" for w'
    by (simp add: checkStatus_def Let_def body)
  have after: "armed (run es (step (Poll (Response d)) w)) = 0
      \<and> closing (run es (step (Poll (Response d)) w)) = 0
      \<and> notified (run es (step (Poll (Response d)) w)) = notified w
      \<and> requests (run es (step (Poll (Response d)) w)) = requests w + 1"
    if one: "armed w = 1" and none: "closing w = 0" for es
  proof -
    obtain ts where ts: "take_check (pending w) = Some ts"
      using one take_check_None[of "pending w"] by (cases "take_check (pending w)") (auto simp: armed_def)
    let ?w = "step (Poll (Response d)) w"
    have s: "?w = record_call (StatusRequest (taskId w)) (w\<lparr>pending := ts\<rparr>)"
      using step_Poll_enabled[OF ts, of "Response d"] call[of "w\<lparr>pending := ts\<rparr>"] by simp
    have a: "armed ?w = 0" and c: "closing ?w = 0"
      using step_Poll_armed(1,2)[OF ts] one none
      by (simp_all add: s armed_def closing_def fields)
    have n: "notified ?w = notified w" and r: "requests ?w = requests w + 1"
      using step_Poll_armed(3,4)[OF ts]
      by (simp_all add: s notified_record_call requests_record_call)
    show ?thesis
      using run_idle[OF a c, of es] n r by simp
  qed
  show ?thesis
    using body call after by blast
qed

theorem unknown_status_stops_polling_witness:
  "success queued_report
   \<and> status queued_report \<noteq> Some ''processing''
   \<and> status queued_report \<noteq> Some ''completed''
   \<and> status queued_report \<noteq> Some ''failed''
   \<and> armed fresh_monitor = 1 \<and> closing fresh_monitor = 0
   \<and> onResponse queued_report fresh_monitor = Inr fresh_monitor
   \<and> armed (run [Poll TransportFailure, Fire 0, Frame 1]
        (step (Poll (Response queued_report)) fresh_monitor)) = 0
   \<and> requests (run [Poll TransportFailure, Fire 0, Frame 1]
        (step (Poll (Response queued_report)) fresh_monitor)) = 1"
proof -
  have h: "success queued_report" "status queued_report \<noteq> Some ''processing''"
    "status queued_report \<noteq> Some ''completed''" "status queued_report \<noteq> Some ''failed''"
    by (simp_all add: queued_report_def)
  have s: "armed fresh_monitor = 1" "closing fresh_monitor = 0" "requests fresh_monitor = 0"
    by (simp_all add: fresh_monitor_def monitorTask_def armed_def closing_def requests_def)
  show ?thesis
    using h s unknown_status_stops_polling[OF h, of fresh_monitor] by simp
qed

end
